theory Spec2Isabelle
  imports Main "HOL-Library.Word"
begin

section \<open>Values, errors and the mutable world\<close>

text \<open>
  The reader (\<^verbatim>\<open>reader.js\<close>) hands out chunks that are JavaScript strings or
  \<^verbatim>\<open>Uint8Array\<close>s, and \<^verbatim>\<open>undefined\<close> where there is none. Chunk contents are
  never mutated by the reader, so a chunk is modelled by its value.
\<close>

type_synonym addr = nat
type_synonym byte = "8 word"

datatype jsval = Undefined | Str string | Bytes "byte list"

text \<open>
  Exceptions are values. \<open>TypeError\<close> is the platform's error (a property read on
  \<^verbatim>\<open>undefined\<close>, a property write on a primitive in strict mode, \<^verbatim>\<open>getReader\<close> on a
  locked stream, \<^verbatim>\<open>read\<close> on a released handle); \<open>DataError\<close> is the \<^verbatim>\<open>Error\<close> thrown by
  \<^verbatim>\<open>concatUint8Array\<close>; \<open>SourceError\<close> is the error an errored stream rejects with.
\<close>

datatype error = TypeError | DataError | SourceError string

text \<open>
  What a \<^verbatim>\<open>Reader\<close> can wrap: a primitive string (no identity, no properties), a
  \<^verbatim>\<open>Uint8Array\<close> object (an identity and its bytes) or a web \<^verbatim>\<open>ReadableStream\<close> object
  (an identity; its state lives in the world). Node streams, which the constructor first
  converts with \<^verbatim>\<open>nodeToWeb\<close>, are outside the model.
\<close>

datatype input = Prim string | U8 addr "byte list" | Web addr

datatype ending = Closed | Errored string

text \<open>
  A web stream is given by its future: the chunks it will still deliver, how it ends
  after them, and whether a reader holds its lock.
\<close>

record web_stream =
  queue :: "jsval list"
  ending :: ending
  locked :: bool

text \<open>
  The world holds everything that is shared by reference: the JavaScript arrays used as
  push-back buffers (a store from addresses to contents, so that two references to one
  array are visible as such), the \<^verbatim>\<open>[externalBuffer]\<close> property of input objects, the
  module-level \<^verbatim>\<open>doneReadingSet\<close> and the streams.
\<close>

record world =
  arrays :: "addr \<Rightarrow> jsval list"
  fresh :: addr
  extprop :: "addr \<Rightarrow> addr option"
  doneReadingSet :: "addr set"
  streams :: "addr \<Rightarrow> web_stream"

text \<open>
  The two closures \<^verbatim>\<open>_read\<close>/\<^verbatim>\<open>_releaseLock\<close> of a reader are either bound to a stream's
  default reader (the stream, and whether the handle was released) or the one-shot
  closures over the local flag \<^verbatim>\<open>doneReading\<close>.
\<close>

datatype source = StreamReader addr bool | OneShot bool

record reader =
  stream :: input
  extbuf :: "addr option"
  source :: source

type_synonym st = "reader \<times> world"

text \<open>The object \<^verbatim>\<open>{ done, value }\<close> that a read resolves to.\<close>

datatype read_result = Result (is_done: bool) (the_value: jsval)

datatype unit_val = NoUnit | CharUnit char | ByteUnit byte

section \<open>Platform primitives\<close>

definition obj_id :: "input \<Rightarrow> addr option" where
  "obj_id i = (case i of Prim _ \<Rightarrow> None | U8 a _ \<Rightarrow> Some a | Web a \<Rightarrow> Some a)"

definition chunk_of :: "input \<Rightarrow> jsval" where
  "chunk_of i = (case i of Prim s \<Rightarrow> Str s | U8 _ bs \<Rightarrow> Bytes bs | Web _ \<Rightarrow> Undefined)"

definition isUint8Array :: "jsval \<Rightarrow> bool" where
  "isUint8Array v = (case v of Bytes _ \<Rightarrow> True | _ \<Rightarrow> False)"

definition isString :: "jsval \<Rightarrow> bool" where
  "isString v = (case v of Str _ \<Rightarrow> True | _ \<Rightarrow> False)"

definition truthy :: "jsval \<Rightarrow> bool" where
  "truthy v = (case v of Undefined \<Rightarrow> False | Str s \<Rightarrow> s \<noteq> [] | Bytes _ \<Rightarrow> True)"

text \<open>\<^verbatim>\<open>value.length\<close>: a \<^verbatim>\<open>TypeError\<close> on \<^verbatim>\<open>undefined\<close>.\<close>

definition js_length :: "jsval \<Rightarrow> error + nat" where
  "js_length v = (case v of Undefined \<Rightarrow> Inl TypeError
                   | Str s \<Rightarrow> Inr (length s) | Bytes bs \<Rightarrow> Inr (length bs))"

text \<open>\<^verbatim>\<open>value[0]\<close>: a \<^verbatim>\<open>TypeError\<close> on \<^verbatim>\<open>undefined\<close>, \<^verbatim>\<open>undefined\<close> out of range.\<close>

definition index0 :: "jsval \<Rightarrow> error + unit_val" where
  "index0 v = (case v of Undefined \<Rightarrow> Inl TypeError
                | Str s \<Rightarrow> Inr (case s of [] \<Rightarrow> NoUnit | c # _ \<Rightarrow> CharUnit c)
                | Bytes bs \<Rightarrow> Inr (case bs of [] \<Rightarrow> NoUnit | b # _ \<Rightarrow> ByteUnit b))"

fun digits :: "nat \<Rightarrow> string" where
  "digits n = (if n < 10 then [char_of (48 + n)] else digits (n div 10) @ [char_of (48 + n mod 10)])"

fun join_comma :: "string list \<Rightarrow> string" where
  "join_comma [] = []"
| "join_comma [x] = x"
| "join_comma (x # y # ys) = x @ '','' @ join_comma (y # ys)"

text \<open>\<^verbatim>\<open>value + ''\<close>: the string itself, \<^verbatim>\<open>"undefined"\<close>, or the decimal elements joined by commas.\<close>

definition to_string :: "jsval \<Rightarrow> string" where
  "to_string v = (case v of Undefined \<Rightarrow> ''undefined'' | Str s \<Rightarrow> s
                   | Bytes bs \<Rightarrow> join_comma (map (\<lambda>b. digits (unat b)) bs))"

text \<open>\<^verbatim>\<open>value.indexOf('\n') + 1\<close>: one past the first newline, 0 when there is none.\<close>

fun lineEndIndex :: "string \<Rightarrow> nat" where
  "lineEndIndex [] = 0"
| "lineEndIndex (c # cs) =
     (if c = CHR 0x0A then 1 else (case lineEndIndex cs of 0 \<Rightarrow> 0 | Suc k \<Rightarrow> Suc (Suc k)))"

text \<open>
  \<^verbatim>\<open>concatUint8Array\<close> of \<^verbatim>\<open>util.js\<close>: a one-element list gives its element as it is;
  otherwise every element must be a \<^verbatim>\<open>Uint8Array\<close>.
\<close>

definition bytes_of :: "jsval \<Rightarrow> byte list" where
  "bytes_of v = (case v of Bytes bs \<Rightarrow> bs | _ \<Rightarrow> [])"

definition str_of :: "jsval \<Rightarrow> string" where
  "str_of v = (case v of Str s \<Rightarrow> s | _ \<Rightarrow> [])"

definition concatUint8Array :: "jsval list \<Rightarrow> error + jsval" where
  "concatUint8Array arrs =
     (case arrs of [x] \<Rightarrow> Inr x
      | _ \<Rightarrow> if list_all isUint8Array arrs then Inr (Bytes (concat (map bytes_of arrs)))
             else Inl DataError)"

text \<open>
  Modelled from the spec: \<^verbatim>\<open>streams.concat\<close> and \<^verbatim>\<open>streams.slice\<close> live in \<^verbatim>\<open>streams.js\<close>,
  which is not among the sources. The spec gives them as the pure primitives
  \<^verbatim>\<open>concat(sequence of Chunk) -> Chunk\<close> and \<^verbatim>\<open>slice(Chunk, start, end?) -> Chunk\<close>, the
  concatenation failing on incompatible chunk representations. Text chunks are joined;
  everything else goes to \<^verbatim>\<open>concatUint8Array\<close>.
\<close>

definition streams_concat :: "jsval list \<Rightarrow> error + jsval" where
  "streams_concat list =
     (if list \<noteq> [] \<and> list_all isString list then Inr (Str (concat (map str_of list)))
      else concatUint8Array list)"

definition streams_slice :: "jsval \<Rightarrow> nat \<Rightarrow> nat option \<Rightarrow> error + jsval" where
  "streams_slice v b e =
     (case v of Undefined \<Rightarrow> Inl TypeError
      | Str s \<Rightarrow> Inr (Str (case e of None \<Rightarrow> drop b s | Some e' \<Rightarrow> take (e' - b) (drop b s)))
      | Bytes bs \<Rightarrow> Inr (Bytes (case e of None \<Rightarrow> drop b bs | Some e' \<Rightarrow> take (e' - b) (drop b bs))))"

section \<open>The reader\<close>

subsection \<open>Construction and the underlying source\<close>

text \<open>\<^verbatim>\<open>input[externalBuffer]\<close>: a primitive has no such property.\<close>

definition inherited :: "input \<Rightarrow> world \<Rightarrow> addr option" where
  "inherited i w = (case obj_id i of None \<Rightarrow> None | Some a \<Rightarrow> extprop w a)"

text \<open>\<^verbatim>\<open>array.slice()\<close>: a new array with the same elements.\<close>

definition array_copy :: "addr \<Rightarrow> world \<Rightarrow> addr \<times> world"  where
  "array_copy a w =
     (fresh w, w\<lparr>arrays := (arrays w)(fresh w := arrays w a), fresh := Suc (fresh w)\<rparr>)"

definition array_new :: "world \<Rightarrow> addr \<times> world" where
  "array_new w = (fresh w, w\<lparr>arrays := (arrays w)(fresh w := []), fresh := Suc (fresh w)\<rparr>)"

text \<open>
  \<^verbatim>\<open>function Reader(input)\<close>. \<^verbatim>\<open>isStream(input)\<close> is truthy exactly for the stream
  object; \<^verbatim>\<open>getReader()\<close> throws on a locked stream and locks it otherwise.
\<close>

definition Reader :: "input \<Rightarrow> world \<Rightarrow> (error + reader) \<times> world" where
  "Reader i w =
     (let (buf, w1) = (case inherited i w of
                         Some a \<Rightarrow> (let (c, w') = array_copy a w in (Some c, w'))
                       | None \<Rightarrow> (None, w))
      in case i of
           Web sa \<Rightarrow>
             if locked (streams w1 sa) then (Inl TypeError, w1)
             else (Inr \<lparr>stream = i, extbuf = buf, source = StreamReader sa False\<rparr>,
                   w1\<lparr>streams := (streams w1)(sa := (streams w1 sa)\<lparr>locked := True\<rparr>)\<rparr>)
         | _ \<Rightarrow> (Inr \<lparr>stream = i, extbuf = buf, source = OneShot False\<rparr>, w1))"

text \<open>
  \<^verbatim>\<open>doneReadingSet.has(input)\<close> and \<^verbatim>\<open>doneReadingSet.add(input)\<close>: a \<^verbatim>\<open>WeakSet\<close> holds
  objects only; \<^verbatim>\<open>has\<close> of a primitive is false and \<^verbatim>\<open>add\<close> of a primitive throws.
\<close>

definition weakset_has :: "input \<Rightarrow> world \<Rightarrow> bool" where
  "weakset_has i w = (case obj_id i of None \<Rightarrow> False | Some a \<Rightarrow> a \<in> doneReadingSet w)"

definition weakset_add :: "input \<Rightarrow> world \<Rightarrow> error + world" where
  "weakset_add i w = (case obj_id i of None \<Rightarrow> Inl TypeError
                       | Some a \<Rightarrow> Inr (w\<lparr>doneReadingSet := insert a (doneReadingSet w)\<rparr>))"

text \<open>
  \<^verbatim>\<open>this._read\<close>: the stream reader's \<^verbatim>\<open>read\<close>, or the one-shot closure of lines 47-60.
\<close>

definition source_read :: "st \<Rightarrow> (error + read_result) \<times> st" where
  "source_read s =
     (let (r, w) = s in
      case source r of
        StreamReader sa released \<Rightarrow>
          if released then (Inl TypeError, s)
          else (case queue (streams w sa) of
                  v # q \<Rightarrow> (Inr (Result False v),
                            (r, w\<lparr>streams := (streams w)(sa := (streams w sa)\<lparr>queue := q\<rparr>)\<rparr>))
                | [] \<Rightarrow> (case ending (streams w sa) of
                           Closed \<Rightarrow> (Inr (Result True Undefined), s)
                         | Errored e \<Rightarrow> (Inl (SourceError e), s)))
      | OneShot doneReading \<Rightarrow>
          if doneReading \<or> weakset_has (stream r) w then (Inr (Result True Undefined), s)
          else (Inr (Result False (chunk_of (stream r))), (r\<lparr>source := OneShot True\<rparr>, w)))"

text \<open>
  \<^verbatim>\<open>this._releaseLock\<close>: the stream reader's \<^verbatim>\<open>releaseLock\<close> (nothing on a released handle),
  or the one-shot closure of lines 62-68, whose \<^verbatim>\<open>catch\<close> swallows the error of \<^verbatim>\<open>add\<close>.
\<close>

definition source_release :: "st \<Rightarrow> st" where
  "source_release s =
     (let (r, w) = s in
      case source r of
        StreamReader sa released \<Rightarrow>
          if released then s
          else (r\<lparr>source := StreamReader sa True\<rparr>,
                w\<lparr>streams := (streams w)(sa := (streams w sa)\<lparr>locked := False\<rparr>)\<rparr>)
      | OneShot doneReading \<Rightarrow>
          if doneReading then
            (case weakset_add (stream r) w of Inl e \<Rightarrow> s | Inr w' \<Rightarrow> (r, w'))
          else s)"

subsection \<open>The operations\<close>

text \<open>\<^verbatim>\<open>Reader.prototype.read\<close>.\<close>

definition read :: "st \<Rightarrow> (error + read_result) \<times> st" where
  "read s =
     (let (r, w) = s in
      case extbuf r of
        Some a \<Rightarrow>
          (case arrays w a of
             v # rest \<Rightarrow> (Inr (Result False v), (r, w\<lparr>arrays := (arrays w)(a := rest)\<rparr>))
           | [] \<Rightarrow> source_read s)
      | None \<Rightarrow> source_read s)"

text \<open>
  \<^verbatim>\<open>Reader.prototype.releaseLock\<close>. An array is truthy also when it is empty. The
  assignment to \<^verbatim>\<open>this.stream[externalBuffer]\<close> throws in strict mode when the wrapped
  input is a primitive.
\<close>

definition releaseLock :: "st \<Rightarrow> (error + unit) \<times> st" where
  "releaseLock s =
     (let (r, w) = s in
      case extbuf r of
        Some a \<Rightarrow>
          (case obj_id (stream r) of
             None \<Rightarrow> (Inl TypeError, s)
           | Some i \<Rightarrow> (Inr (), source_release (r, w\<lparr>extprop := (extprop w)(i \<mapsto> a)\<rparr>)))
      | None \<Rightarrow> (Inr (), source_release s))"

text \<open>\<^verbatim>\<open>value && value.length\<close>, the filter of \<^verbatim>\<open>unshift\<close>.\<close>

definition keep :: "jsval \<Rightarrow> bool" where
  "keep v = (truthy v \<and> (case js_length v of Inl _ \<Rightarrow> False | Inr n \<Rightarrow> n \<noteq> 0))"

text \<open>\<^verbatim>\<open>Reader.prototype.unshift\<close>.\<close>

definition unshift :: "jsval list \<Rightarrow> st \<Rightarrow> st" where
  "unshift vals s =
     (let (r, w) = s;
          (a, r1, w1) = (case extbuf r of
                           Some a \<Rightarrow> (a, r, w)
                         | None \<Rightarrow> (let (n, w') = array_new w in (n, r\<lparr>extbuf := Some n\<rparr>, w')))
      in (r1, w1\<lparr>arrays := (arrays w1)(a := filter keep vals @ arrays w1 a)\<rparr>))"

text \<open>\<^verbatim>\<open>Reader.prototype.readByte\<close>.\<close>

definition readByte :: "st \<Rightarrow> (error + unit_val) \<times> st" where
  "readByte s =
     (case read s of
        (Inl e, s1) \<Rightarrow> (Inl e, s1)
      | (Inr res, s1) \<Rightarrow>
          if is_done res then (Inr NoUnit, s1)
          else (case index0 (the_value res) of
                  Inl e \<Rightarrow> (Inl e, s1)
                | Inr b \<Rightarrow> (case streams_slice (the_value res) 1 None of
                             Inl e \<Rightarrow> (Inl e, s1)
                           | Inr rest \<Rightarrow> (Inr b, unshift [rest] s1))))"

text \<open>
  What a reader can still deliver: its buffer, then what its source holds. The loops
  below terminate because every read that is not \<open>done\<close> takes one chunk of it.
\<close>

definition buffer_of :: "st \<Rightarrow> jsval list" where
  "buffer_of s = (case extbuf (fst s) of None \<Rightarrow> [] | Some a \<Rightarrow> arrays (snd s) a)"

definition source_rest :: "st \<Rightarrow> jsval list" where
  "source_rest s =
     (case source (fst s) of
        StreamReader sa released \<Rightarrow> queue (streams (snd s) sa)
      | OneShot d \<Rightarrow> if d \<or> weakset_has (stream (fst s)) (snd s) then []
                     else [chunk_of (stream (fst s))])"

definition pending :: "st \<Rightarrow> jsval list" where
  "pending s = buffer_of s @ source_rest s"

text \<open>\<^verbatim>\<open>Reader.prototype.readBytes\<close>: the loop, with its locals \<^verbatim>\<open>buffer\<close> and \<^verbatim>\<open>bufferLength\<close>.\<close>

function readBytes_loop :: "nat \<Rightarrow> jsval list \<Rightarrow> nat \<Rightarrow> st \<Rightarrow> (error + jsval) \<times> st" where
  "readBytes_loop len buffer bufferLength s =
     (case read s of
        (Inl e, s1) \<Rightarrow> (Inl e, s1)
      | (Inr res, s1) \<Rightarrow>
          if is_done res then
            (if buffer \<noteq> [] then (streams_concat buffer, s1) else (Inr Undefined, s1))
          else (case js_length (the_value res) of
                  Inl e \<Rightarrow> (Inl e, s1)
                | Inr l \<Rightarrow>
                    if bufferLength + l \<ge> len then
                      (case streams_concat (buffer @ [the_value res]) of
                         Inl e \<Rightarrow> (Inl e, s1)
                       | Inr bufferConcat \<Rightarrow>
                           (case streams_slice bufferConcat len None of
                              Inl e \<Rightarrow> (Inl e, s1)
                            | Inr rest \<Rightarrow>
                                (case streams_slice bufferConcat 0 (Some len) of
                                   Inl e \<Rightarrow> (Inl e, unshift [rest] s1)
                                 | Inr bytes \<Rightarrow> (Inr bytes, unshift [rest] s1))))
                    else readBytes_loop len (buffer @ [the_value res]) (bufferLength + l) s1))"
  by pat_completeness auto
termination
proof (relation "measure (\<lambda>(len, buffer, bufferLength, s). length (pending s))", goal_cases)
  case 1
  show ?case by simp
next
  case (2 len buffer bufferLength s x1 s1 res l)
  from 2(1) [symmetric] 2(2) 2(3) show ?case
    by (cases s)
      (auto simp: read_def source_read_def pending_def buffer_of_def source_rest_def
        weakset_has_def split: option.splits list.splits source.splits if_splits ending.splits)
qed

declare readBytes_loop.simps [simp del]

definition readBytes :: "nat \<Rightarrow> st \<Rightarrow> (error + jsval) \<times> st" where
  "readBytes len s = readBytes_loop len [] 0 s"

text \<open>\<^verbatim>\<open>Reader.prototype.peekBytes\<close>.\<close>

definition peekBytes :: "nat \<Rightarrow> st \<Rightarrow> (error + jsval) \<times> st" where
  "peekBytes len s =
     (case readBytes len s of
        (Inl e, s1) \<Rightarrow> (Inl e, s1)
      | (Inr bytes, s1) \<Rightarrow> (Inr bytes, unshift [bytes] s1))"

text \<open>
  \<^verbatim>\<open>Reader.prototype.readLine\<close>. The loop runs while \<^verbatim>\<open>returnVal\<close> is falsy; a falsy
  \<^verbatim>\<open>returnVal\<close> is never looked at again, so only \<^verbatim>\<open>buffer\<close> is carried around.
\<close>

function readLine_loop :: "jsval list \<Rightarrow> st \<Rightarrow> (error + jsval) \<times> st" where
  "readLine_loop buffer s =
     (case read s of
        (Inl e, s1) \<Rightarrow> (Inl e, s1)
      | (Inr res, s1) \<Rightarrow>
          (let v = to_string (the_value res) in
           if is_done res then
             (if buffer \<noteq> [] then (streams_concat buffer, s1) else (Inr Undefined, s1))
           else
             (let i = lineEndIndex v in
              if i \<noteq> 0 then
                (case streams_concat (buffer @ [Str (take i v)]) of
                   Inl e \<Rightarrow> (Inl e, s1)
                 | Inr returnVal \<Rightarrow>
                     (let buffer' = (if i \<noteq> length v then [Str (drop i v)] else []) in
                      if truthy returnVal then (Inr returnVal, unshift buffer' s1)
                      else readLine_loop buffer' s1))
              else readLine_loop (if i \<noteq> length v then buffer @ [Str (drop i v)] else buffer) s1)))"
  by pat_completeness auto
termination
proof (relation "measure (\<lambda>(buffer, s). length (pending s))", goal_cases)
  case 1
  show ?case by simp
next
  case (2 buffer s x1 s1 res v i returnVal buffer')
  from 2(1) [symmetric] 2(2) 2(4) show ?case
    by (cases s)
      (auto simp: read_def source_read_def pending_def buffer_of_def source_rest_def
        weakset_has_def split: option.splits list.splits source.splits if_splits ending.splits)
next
  case (3 buffer s x1 s1 res v i)
  from 3(1) [symmetric] 3(2) 3(4) show ?case
    by (cases s)
      (auto simp: read_def source_read_def pending_def buffer_of_def source_rest_def
        weakset_has_def split: option.splits list.splits source.splits if_splits ending.splits)
qed

declare readLine_loop.simps [simp del]

definition readLine :: "st \<Rightarrow> (error + jsval) \<times> st" where
  "readLine s = readLine_loop [] s"

text \<open>\<^verbatim>\<open>Reader.prototype.readToEnd\<close>, with the \<^verbatim>\<open>join\<close> function as a parameter.\<close>

function readToEnd_loop :: "jsval list \<Rightarrow> st \<Rightarrow> (error + jsval list) \<times> st" where
  "readToEnd_loop result s =
     (case read s of
        (Inl e, s1) \<Rightarrow> (Inl e, s1)
      | (Inr res, s1) \<Rightarrow>
          if is_done res then (Inr result, s1)
          else readToEnd_loop (result @ [the_value res]) s1)"
  by pat_completeness auto
termination
proof (relation "measure (\<lambda>(result, s). length (pending s))", goal_cases)
  case 1
  show ?case by simp
next
  case (2 result s x1 s1 res)
  from 2(1) [symmetric] 2(2) 2(3) show ?case
    by (cases s)
      (auto simp: read_def source_read_def pending_def buffer_of_def source_rest_def
        weakset_has_def split: option.splits list.splits source.splits if_splits ending.splits)
qed

declare readToEnd_loop.simps [simp del]

definition readToEnd :: "(jsval list \<Rightarrow> error + jsval) \<Rightarrow> st \<Rightarrow> (error + jsval) \<times> st" where
  "readToEnd join s =
     (case readToEnd_loop [] s of
        (Inl e, s1) \<Rightarrow> (Inl e, s1)
      | (Inr result, s1) \<Rightarrow> (join result, s1))"

section \<open>The pull-to-push adapter\<close>

text \<open>
  \<^verbatim>\<open>class NodeReadable\<close> of \<^verbatim>\<open>node-conversions.js\<close>. What the adapter does to its
  downstream side is recorded as the list of events it caused: a chunk pushed, the
  end-of-data marker \<^verbatim>\<open>push(null)\<close>, an \<^verbatim>\<open>'error'\<close> event emitted.
\<close>

datatype event = Pushed jsval | PushedNull | ErrorEvent error

record node_readable =
  reader_st :: st
  reading :: bool
  cancelling :: bool
  events :: "event list"

text \<open>
  \<^verbatim>\<open>this.push\<close> is the platform's \<^verbatim>\<open>Readable.push\<close>: whether it accepts more (its boolean
  result) or throws is up to the downstream side, a parameter of the model that answers
  from what was pushed so far and the argument (\<open>None\<close> for \<^verbatim>\<open>null\<close>).
\<close>

type_synonym sink = "event list \<Rightarrow> jsval option \<Rightarrow> error + bool"

definition push :: "sink \<Rightarrow> jsval option \<Rightarrow> node_readable \<Rightarrow> (error + bool) \<times> node_readable" where
  "push k v nr =
     (case k (events nr) v of
        Inl e \<Rightarrow> (Inl e, nr)
      | Inr accepted \<Rightarrow>
          (Inr accepted, nr\<lparr>events := events nr @ [case v of None \<Rightarrow> PushedNull | Some x \<Rightarrow> Pushed x]\<rparr>))"

definition emit_error :: "error \<Rightarrow> node_readable \<Rightarrow> node_readable" where
  "emit_error e nr = nr\<lparr>events := events nr @ [ErrorEvent e]\<rparr>"

text \<open>
  Modelled from the spec: \<^verbatim>\<open>streams.getReader\<close> of the missing \<^verbatim>\<open>streams.js\<close> gives the
  Lookahead Reader over the wrapped pull source. The constructor of \<^verbatim>\<open>NodeReadable\<close>:
\<close>

definition NodeReadable :: "input \<Rightarrow> world \<Rightarrow> (error + node_readable) \<times> world" where
  "NodeReadable webStream w =
     (case Reader webStream w of
        (Inl e, w1) \<Rightarrow> (Inl e, w1)
      | (Inr r, w1) \<Rightarrow>
          (Inr \<lparr>reader_st = (r, w1), reading = False, cancelling = False, events = []\<rparr>, w1))"

text \<open>
  The body of the \<^verbatim>\<open>try\<close> block of \<^verbatim>\<open>doRead\<close>: the drain loop. It ends normally or
  with the exception that left it. The \<^verbatim>\<open>_cancelling\<close> flag is read as it stands (no
  \<^verbatim>\<open>cancel\<close> call is interleaved with the loop).
\<close>

function drain :: "sink \<Rightarrow> node_readable \<Rightarrow> (error + unit) \<times> node_readable" where
  "drain k nr =
     (case read (reader_st nr) of
        (Inl e, s1) \<Rightarrow> (Inl e, nr\<lparr>reader_st := s1\<rparr>)
      | (Inr res, s1) \<Rightarrow>
          if is_done res then
            (case push k None (nr\<lparr>reader_st := s1\<rparr>) of
               (Inl e, nr2) \<Rightarrow> (Inl e, nr2)
             | (Inr accepted, nr2) \<Rightarrow> (Inr (), nr2))
          else
            (case push k (Some (the_value res)) (nr\<lparr>reader_st := s1\<rparr>) of
               (Inl e, nr2) \<Rightarrow> (Inl e, nr2)
             | (Inr accepted, nr2) \<Rightarrow>
                 if \<not> accepted \<or> cancelling nr2 then (Inr (), nr2\<lparr>reading := False\<rparr>)
                 else drain k nr2))"
  by pat_completeness auto
termination
proof (relation "measure (\<lambda>(k, nr). length (pending (reader_st nr)))", goal_cases)
  case 1
  show ?case by simp
next
  case (2 k nr x1 s1 res x2 nr2 accepted)
  from 2(1) [symmetric] 2(2) 2(3) have "length (pending s1) < length (pending (reader_st nr))"
    by (cases "reader_st nr")
      (auto simp: read_def source_read_def pending_def buffer_of_def source_rest_def
        weakset_has_def split: option.splits list.splits source.splits if_splits ending.splits)
  moreover from 2(4) have "reader_st nr2 = s1"
    by (auto simp: push_def split: sum.splits)
  ultimately show ?case
    by simp
qed

declare drain.simps [simp del]

text \<open>\<^verbatim>\<open>doRead\<close>: the loop inside \<^verbatim>\<open>try\<close>, and the \<^verbatim>\<open>catch\<close> that emits the error event.\<close>

definition doRead :: "sink \<Rightarrow> node_readable \<Rightarrow> node_readable" where
  "doRead k nr = (case drain k nr of (Inl e, nr1) \<Rightarrow> emit_error e nr1 | (Inr u, nr1) \<Rightarrow> nr1)"

text \<open>
  \<^verbatim>\<open>NodeReadable._read\<close>, the solicited-read entry point: its own outcome (an exception
  thrown to the caller, or a normal return) and the adapter afterwards.
\<close>

definition NodeReadable_read :: "sink \<Rightarrow> node_readable \<Rightarrow> (error + unit) \<times> node_readable" where
  "NodeReadable_read k nr =
     (if reading nr \<or> cancelling nr then (Inr (), nr)
      else (Inr (), doRead k (nr\<lparr>reading := True\<rparr>)))"

section \<open>Notions of the specification\<close>

text \<open>A present, non-empty chunk.\<close>

definition present_nonempty :: "jsval \<Rightarrow> bool" where
  "present_nonempty v =
     (case v of Undefined \<Rightarrow> False | Str s \<Rightarrow> s \<noteq> [] | Bytes bs \<Rightarrow> bs \<noteq> [])"

text \<open>The invariant of the push-back buffers: every array of the store holds present, non-empty chunks only.\<close>

definition buffers_ok :: "world \<Rightarrow> bool" where
  "buffers_ok w = (\<forall>a. list_all present_nonempty (arrays w a))"

text \<open>The units (characters or bytes) of a chunk, and of what a reader can still deliver.\<close>

definition units :: "jsval \<Rightarrow> unit_val list" where
  "units v = (case v of Undefined \<Rightarrow> [] | Str s \<Rightarrow> map CharUnit s | Bytes bs \<Rightarrow> map ByteUnit bs)"

definition pending_units :: "st \<Rightarrow> unit_val list" where
  "pending_units s = concat (map units (pending s))"

text \<open>
  The source of a reader is terminated when its next pull reports \<open>done\<close>: a closed
  stream with nothing left behind a live handle, or a one-shot source that was consumed.
\<close>

definition terminated :: "st \<Rightarrow> bool" where
  "terminated s =
     (case source (fst s) of
        StreamReader sa released \<Rightarrow>
          \<not> released \<and> queue (streams (snd s) sa) = [] \<and> ending (streams (snd s) sa) = Closed
      | OneShot d \<Rightarrow> d \<or> weakset_has (stream (fst s)) (snd s))"

text \<open>
  The source of a reader does not fail: its handle is live and its stream, once the
  pending chunks are delivered, closes.
\<close>

definition live :: "st \<Rightarrow> bool" where
  "live s =
     (case source (fst s) of
        StreamReader sa released \<Rightarrow> \<not> released \<and> ending (streams (snd s) sa) = Closed
      | OneShot d \<Rightarrow> True)"

text \<open>Chunks of one kind: all text or all bytes.\<close>

definition same_kind :: "jsval list \<Rightarrow> bool" where
  "same_kind cs = (list_all isString cs \<or> list_all isUint8Array cs)"

definition chunk_length :: "jsval \<Rightarrow> nat" where
  "chunk_length v = (case v of Undefined \<Rightarrow> 0 | Str s \<Rightarrow> length s | Bytes bs \<Rightarrow> length bs)"

definition total_length :: "jsval list \<Rightarrow> nat" where
  "total_length cs = sum_list (map chunk_length cs)"

definition chunk_take :: "nat \<Rightarrow> jsval \<Rightarrow> jsval" where
  "chunk_take n v = (case v of Undefined \<Rightarrow> Undefined | Str s \<Rightarrow> Str (take n s) | Bytes bs \<Rightarrow> Bytes (take n bs))"

definition chunk_drop :: "nat \<Rightarrow> jsval \<Rightarrow> jsval" where
  "chunk_drop n v = (case v of Undefined \<Rightarrow> Undefined | Str s \<Rightarrow> Str (drop n s) | Bytes bs \<Rightarrow> Bytes (drop n bs))"

text \<open>The concatenation of chunks of one kind.\<close>

definition joined :: "jsval list \<Rightarrow> jsval" where
  "joined cs = (if cs \<noteq> [] \<and> list_all isString cs then Str (concat (map str_of cs))
                else Bytes (concat (map bytes_of cs)))"

text \<open>
  \<^verbatim>\<open>readBytes(n)\<close> in the words of the specification, on the list of chunks a reader can
  still deliver. \<open>accumulate n acc cs\<close> accumulates chunks of \<open>cs\<close> onto \<open>acc\<close> until the
  accumulated length is at least \<open>n\<close> or \<open>cs\<close> is used up, and gives the accumulation and
  the chunks not touched. \<open>readBytes_spec n cs\<close> gives the result and the chunks the
  reader can deliver afterwards: absent on an empty accumulation, the whole accumulation
  when the source terminated first, otherwise the first \<open>n\<close> units of the concatenation,
  the remainder beyond offset \<open>n\<close> going back in front as one chunk (nothing goes back
  when the remainder is empty).
\<close>

fun accumulate :: "nat \<Rightarrow> jsval list \<Rightarrow> jsval list \<Rightarrow> jsval list \<times> jsval list" where
  "accumulate n acc [] = (acc, [])"
| "accumulate n acc (c # cs) =
     (if total_length (acc @ [c]) \<ge> n then (acc @ [c], cs) else accumulate n (acc @ [c]) cs)"

definition readBytes_result :: "nat \<Rightarrow> jsval list \<Rightarrow> jsval" where
  "readBytes_result n acc =
     (if acc = [] then Undefined
      else if total_length acc < n then joined acc
      else chunk_take n (joined acc))"

definition readBytes_pushback :: "nat \<Rightarrow> jsval list \<Rightarrow> jsval list" where
  "readBytes_pushback n acc =
     (if acc = [] \<or> total_length acc < n then []
      else filter present_nonempty [chunk_drop n (joined acc)])"

definition readBytes_spec :: "nat \<Rightarrow> jsval list \<Rightarrow> jsval \<times> jsval list" where
  "readBytes_spec n cs =
     (let (acc, rest) = accumulate n [] cs
      in (readBytes_result n acc, readBytes_pushback n acc @ rest))"

text \<open>
  The source of a reader fails: its handle is live and its stream, once the pending
  chunks are delivered, rejects the pull with an error.
\<close>

definition source_fails :: "addr \<Rightarrow> string \<Rightarrow> st \<Rightarrow> bool" where
  "source_fails sa msg s \<longleftrightarrow>
     source (fst s) = StreamReader sa False \<and> ending (streams (snd s) sa) = Errored msg"

section \<open>Example states\<close>

text \<open>
  An empty world; a world with one closed, unlocked stream at address 0 that will
  deliver the given chunks; and a reader that holds the lock of that stream.
\<close>

definition world0 :: world where
  "world0 =
     \<lparr>arrays = (\<lambda>_. []), fresh = 0, extprop = (\<lambda>_. None), doneReadingSet = {},
      streams = (\<lambda>_. \<lparr>queue = [], ending = Closed, locked = False\<rparr>)\<rparr>"

definition stream_world :: "jsval list \<Rightarrow> world" where
  "stream_world cs =
     world0\<lparr>streams := (streams world0)(0 := \<lparr>queue = cs, ending = Closed, locked = False\<rparr>)\<rparr>"

definition stream_reader :: "jsval list \<Rightarrow> st" where
  "stream_reader cs =
     (\<lparr>stream = Web 0, extbuf = None, source = StreamReader 0 False\<rparr>,
      world0\<lparr>streams := (streams world0)(0 := \<lparr>queue = cs, ending = Closed, locked = True\<rparr>)\<rparr>)"

text \<open>A reader over a value that is not a stream, as constructed in the empty world.\<close>

definition scalar_reader :: "input \<Rightarrow> st" where
  "scalar_reader i = (\<lparr>stream = i, extbuf = None, source = OneShot False\<rparr>, world0)"

text \<open>The reader of the line-splitting example: the source yields four text chunks, one per pull.\<close>

definition line_reader :: st where
  "line_reader = stream_reader [Str ''ab'', Str ''c\<newline>de'', Str ''f\<newline>'', Str ''g'']"

text \<open>A reader over the stream at address 0 that holds one chunk in its push-back buffer.\<close>

definition buffered_reader :: st where
  "buffered_reader =
     (\<lparr>stream = Web 0, extbuf = Some 0, source = StreamReader 0 False\<rparr>,
      world0\<lparr>arrays := (arrays world0)(0 := [Str ''a'']), fresh := 1,
        streams := (streams world0)(0 := \<lparr>queue = [], ending = Closed, locked = True\<rparr>)\<rparr>)"

text \<open>
  Downstream sides of the adapter: one that accepts every push, one whose \<^verbatim>\<open>push\<close> throws.
  And an adapter, not yet reading, over the stream at address 0 that delivers the given
  chunks and then fails.
\<close>

definition accept_all :: sink where
  "accept_all evs v = Inr True"

definition throwing :: "error \<Rightarrow> sink" where
  "throwing e evs v = Inl e"

definition failing_adapter :: "jsval list \<Rightarrow> string \<Rightarrow> node_readable" where
  "failing_adapter cs msg =
     \<lparr>reader_st =
        (\<lparr>stream = Web 0, extbuf = None, source = StreamReader 0 False\<rparr>,
         world0\<lparr>streams := (streams world0)(0 := \<lparr>queue = cs, ending = Errored msg, locked = True\<rparr>)\<rparr>),
      reading = False, cancelling = False, events = []\<rparr>"

section \<open>Scenarios of the specification\<close>

text \<open>\<^verbatim>\<open>new Reader(input).read()\<close>: the outcome of the first read of a newly constructed reader.\<close>

definition first_read_of_new_reader :: "input \<Rightarrow> world \<Rightarrow> error + read_result" where
  "first_read_of_new_reader i w =
     (case Reader i w of (Inl e, w') \<Rightarrow> Inl e | (Inr r, w') \<Rightarrow> fst (read (r, w')))"



section \<open>Basic facts\<close>

lemma stream_reader_Reader:
  "Reader (Web 0) (stream_world cs) = (Inr (fst (stream_reader cs)), snd (stream_reader cs))"
  by (simp add: Reader_def stream_world_def stream_reader_def world0_def inherited_def obj_id_def)

lemma keep_iff: "keep v = present_nonempty v"
  by (cases v) (simp_all add: keep_def present_nonempty_def truthy_def js_length_def)

lemma filter_keep: "filter keep vs = filter present_nonempty vs"
  by (rule filter_cong) (simp_all add: keep_iff)

lemma unshift_Some:
  "extbuf r = Some a \<Longrightarrow>
   unshift vals (r, w) = (r, w\<lparr>arrays := (arrays w)(a := filter present_nonempty vals @ arrays w a)\<rparr>)"
  by (simp add: unshift_def filter_keep)

lemma unshift_None:
  "extbuf r = None \<Longrightarrow>
   unshift vals (r, w) =
     (r\<lparr>extbuf := Some (fresh w)\<rparr>,
      w\<lparr>arrays := (arrays w)(fresh w := filter present_nonempty vals), fresh := Suc (fresh w)\<rparr>)"
  by (simp add: unshift_def array_new_def filter_keep)

lemma buffer_of_unshift: "buffer_of (unshift vals s) = filter present_nonempty vals @ buffer_of s"
  by (cases s; cases "extbuf (fst s)") (simp_all add: unshift_Some unshift_None buffer_of_def)

lemma weakset_has_frame:
  "weakset_has i (w\<lparr>arrays := x\<rparr>) = weakset_has i w"
  "weakset_has i (w\<lparr>fresh := y\<rparr>) = weakset_has i w"
  "weakset_has i (w\<lparr>extprop := z\<rparr>) = weakset_has i w"
  "weakset_has i (w\<lparr>streams := u\<rparr>) = weakset_has i w"
  by (simp_all add: weakset_has_def split: option.splits)

lemma source_rest_unshift: "source_rest (unshift vals s) = source_rest s"
  by (cases s; cases "extbuf (fst s)")
    (simp_all add: unshift_Some unshift_None source_rest_def weakset_has_frame split: source.splits)

lemma pending_unshift: "pending (unshift vals s) = filter present_nonempty vals @ pending s"
  by (simp add: pending_def buffer_of_unshift source_rest_unshift)

text \<open>What one \<open>read\<close> does to the chunks a reader can still deliver.\<close>

lemma read_spec:
  "case read s of
     (Inl e, s') \<Rightarrow> s' = s
   | (Inr res, s') \<Rightarrow>
       (if is_done res then the_value res = Undefined \<and> s' = s \<and> pending s = []
        else pending s = the_value res # pending s')"
  by (cases s)
    (auto simp: read_def source_read_def pending_def buffer_of_def source_rest_def
      weakset_has_def split: option.splits list.splits source.splits if_splits ending.splits)

lemma read_value: "read s = (Inr (Result False c), s') \<Longrightarrow> pending s = c # pending s'"
  using read_spec [of s] by simp

lemma read_done:
  "read s = (Inr (Result True x), s') \<Longrightarrow> x = Undefined \<and> s' = s \<and> pending s = []"
  using read_spec [of s] by simp

lemma read_error: "read s = (Inl e, s') \<Longrightarrow> s' = s"
  using read_spec [of s] by simp

section \<open>The reader serves its buffer first\<close>

text \<open>
  C1. When the push-back buffer of a reader is not empty, \<open>read\<close> returns its front chunk
  with \<open>done = false\<close> and removes it from the buffer, and the underlying source is not
  pulled: the reader's source handle, the streams, the registry of consumed values and
  what the source can still deliver are as before. When the buffer is empty or absent,
  \<open>read\<close> is the pull of the underlying source.
\<close>

theorem read_buffer_first:
  "(buffer_of s = v # rest \<longrightarrow>
      fst (read s) = Inr (Result False v) \<and> buffer_of (snd (read s)) = rest \<and>
      fst (snd (read s)) = fst s \<and> streams (snd (snd (read s))) = streams (snd s) \<and>
      doneReadingSet (snd (snd (read s))) = doneReadingSet (snd s) \<and>
      source_rest (snd (read s)) = source_rest s) \<and>
   (buffer_of s = [] \<longrightarrow> read s = source_read s)"
  by (cases s)
    (auto simp: read_def buffer_of_def source_rest_def weakset_has_def
      split: option.splits list.splits source.splits)

theorem read_buffer_first_witness:
  "buffer_of (unshift [Str ''x'', Str ''y''] (stream_reader [Str ''z''])) = Str ''x'' # [Str ''y''] \<and>
   fst (read (unshift [Str ''x'', Str ''y''] (stream_reader [Str ''z'']))) = Inr (Result False (Str ''x'')) \<and>
   buffer_of (snd (read (unshift [Str ''x'', Str ''y''] (stream_reader [Str ''z''])))) = [Str ''y''] \<and>
   source_rest (snd (read (unshift [Str ''x'', Str ''y''] (stream_reader [Str ''z''])))) = [Str ''z''] \<and>
   buffer_of (stream_reader [Str ''z'']) = [] \<and>
   read (stream_reader [Str ''z'']) = source_read (stream_reader [Str ''z''])"
proof -
  let ?s = "unshift [Str ''x'', Str ''y''] (stream_reader [Str ''z''])"
  have e: "buffer_of (stream_reader [Str ''z'']) = []"
    by (simp add: stream_reader_def buffer_of_def)
  have b: "buffer_of ?s = Str ''x'' # [Str ''y'']"
    by (simp add: buffer_of_unshift present_nonempty_def e)
  have "source_rest (stream_reader [Str ''z'']) = [Str ''z'']"
    by (simp add: stream_reader_def source_rest_def world0_def)
  then have r: "source_rest ?s = [Str ''z'']"
    by (simp add: source_rest_unshift)
  from read_buffer_first [of ?s "Str ''x''" "[Str ''y'']"] b r
    read_buffer_first [of "stream_reader [Str ''z'']"] e
  show ?thesis by simp
qed

section \<open>Push-back\<close>

text \<open>
  C8. \<open>unshift\<close> puts exactly the present, non-empty ones of its arguments in front of
  the push-back buffer, in the order of the arguments (the first argument becomes the
  front chunk); empty and absent arguments are dropped; the chunks that were buffered
  before stay behind them in their order.
\<close>

theorem unshift_prepends:
  "buffer_of (unshift vals s) = filter present_nonempty vals @ buffer_of s"
  by (cases s; cases "extbuf (fst s)") (simp_all add: unshift_Some unshift_None buffer_of_def)

theorem unshift_prepends_witness:
  "buffer_of (unshift [Str ''ab'', Undefined, Str [], Bytes [], Bytes [1]]
       (unshift [Str ''old''] (stream_reader []))) = [Str ''ab'', Bytes [1], Str ''old'']"
  using unshift_prepends [of "[Str ''ab'', Undefined, Str [], Bytes [], Bytes [1]]"
    "unshift [Str ''old''] (stream_reader [])"]
    unshift_prepends [of "[Str ''old'']" "stream_reader []"]
  by (simp add: present_nonempty_def stream_reader_def buffer_of_def)

section \<open>The invariant of the push-back buffers\<close>

lemma buffers_ok_frame:
  "buffers_ok (w\<lparr>fresh := y\<rparr>) = buffers_ok w"
  "buffers_ok (w\<lparr>extprop := z\<rparr>) = buffers_ok w"
  "buffers_ok (w\<lparr>streams := u\<rparr>) = buffers_ok w"
  "buffers_ok (w\<lparr>doneReadingSet := d\<rparr>) = buffers_ok w"
  by (simp_all add: buffers_ok_def)

lemma buffers_ok_pop:
  assumes "buffers_ok w" and "arrays w a = v # rest"
  shows "buffers_ok (w\<lparr>arrays := (arrays w)(a := rest)\<rparr>)"
proof -
  from assms(1) have "list_all present_nonempty (arrays w a)"
    by (simp add: buffers_ok_def)
  with assms(2) have "list_all present_nonempty rest"
    by simp
  with assms(1) show ?thesis
    by (simp add: buffers_ok_def)
qed

lemma buffers_ok_unshift: "buffers_ok (snd s) \<Longrightarrow> buffers_ok (snd (unshift vals s))"
  by (cases s; cases "extbuf (fst s)")
    (auto simp: unshift_Some unshift_None buffers_ok_def list_all_iff)

lemma buffers_ok_source_read: "buffers_ok (snd s) \<Longrightarrow> buffers_ok (snd (snd (source_read s)))"
  by (cases s)
    (auto simp: source_read_def buffers_ok_frame
      split: option.splits list.splits source.splits if_splits ending.splits)

lemma buffers_ok_read: "buffers_ok (snd s) \<Longrightarrow> buffers_ok (snd (snd (read s)))"
  using buffers_ok_source_read [of s]
  by (cases s) (auto simp: read_def buffers_ok_pop split: option.splits list.splits)

lemma buffers_ok_source_release: "buffers_ok (snd s) \<Longrightarrow> buffers_ok (snd (source_release s))"
  by (cases s)
    (auto simp: source_release_def weakset_add_def buffers_ok_frame
      split: option.splits source.splits sum.splits)

lemma buffers_ok_releaseLock: "buffers_ok (snd s) \<Longrightarrow> buffers_ok (snd (snd (releaseLock s)))"
  by (cases s)
    (auto simp: releaseLock_def buffers_ok_frame intro!: buffers_ok_source_release [of "(a, b)" for a b, simplified]
      split: option.splits)

lemma buffers_ok_Reader: "buffers_ok w \<Longrightarrow> buffers_ok (snd (Reader i w))"
  by (auto simp: Reader_def array_copy_def buffers_ok_def Let_def split: option.splits input.splits)

lemma buffers_ok_readByte: "buffers_ok (snd s) \<Longrightarrow> buffers_ok (snd (snd (readByte s)))"
  using buffers_ok_read [of s]
  by (auto simp: readByte_def buffers_ok_unshift split: prod.splits sum.splits)

lemma buffers_ok_readBytes_loop:
  "buffers_ok (snd s) \<Longrightarrow> buffers_ok (snd (snd (readBytes_loop len buffer bl s)))"
proof (induction len buffer bl s rule: readBytes_loop.induct)
  case (1 len buffer bl s)
  obtain x s1 where rd: "read s = (x, s1)"
    by (cases "read s")
  from 1(2) rd have ok1: "buffers_ok (snd s1)"
    using buffers_ok_read [of s] by simp
  show ?case
  proof (cases x)
    case (Inl e)
    with rd ok1 show ?thesis
      by (subst readBytes_loop.simps) simp
  next
    case (Inr res)
    note x = this
    show ?thesis
    proof (cases "is_done res")
      case True
      with rd x ok1 show ?thesis
        by (subst readBytes_loop.simps) simp
    next
      case False
      note nd = this
      show ?thesis
      proof (cases "js_length (the_value res)")
        case (Inl e)
        with rd x nd ok1 show ?thesis
          by (subst readBytes_loop.simps) simp
      next
        case (Inr l)
        note l = this
        show ?thesis
        proof (cases "len \<le> bl + l")
          case True
          with rd x nd l ok1 show ?thesis
            by (subst readBytes_loop.simps) (simp add: buffers_ok_unshift split: sum.splits)
        next
          case False
          from "1.IH" [OF rd [symmetric] x nd l False ok1] rd x nd l False show ?thesis
            by (subst readBytes_loop.simps) simp
        qed
      qed
    qed
  qed
qed

lemma buffers_ok_readLine_loop:
  "buffers_ok (snd s) \<Longrightarrow> buffers_ok (snd (snd (readLine_loop buffer s)))"
proof (induction buffer s rule: readLine_loop.induct)
  case (1 buffer s)
  obtain x s1 where rd: "read s = (x, s1)"
    by (cases "read s")
  from 1(3) rd have ok1: "buffers_ok (snd s1)"
    using buffers_ok_read [of s] by simp
  show ?case
  proof (cases x)
    case (Inl e)
    with rd ok1 show ?thesis
      by (subst readLine_loop.simps) simp
  next
    case (Inr res)
    note x = this
    show ?thesis
    proof (cases "is_done res")
      case True
      with rd x ok1 show ?thesis
        by (subst readLine_loop.simps) simp
    next
      case False
      note nd = this
      define v where "v = to_string (the_value res)"
      define i where "i = lineEndIndex v"
      show ?thesis
      proof (cases "i = 0")
        case True
        from "1.IH"(2) [OF rd [symmetric] x v_def nd i_def _ ok1] True
        have "buffers_ok (snd (snd (readLine_loop
                (if i \<noteq> length v then buffer @ [Str (drop i v)] else buffer) s1)))"
          by simp
        with rd x nd True show ?thesis
          by (subst readLine_loop.simps) (auto simp: v_def [symmetric] i_def [symmetric] Let_def)
      next
        case False
        note nz = this
        show ?thesis
        proof (cases "streams_concat (buffer @ [Str (take i v)])")
          case (Inl e)
          with rd x nd nz ok1 show ?thesis
            by (subst readLine_loop.simps) (simp add: v_def [symmetric] i_def [symmetric] Let_def)
        next
          case (Inr returnVal)
          note rv = this
          define buffer' where "buffer' = (if i \<noteq> length v then [Str (drop i v)] else [])"
          show ?thesis
          proof (cases "truthy returnVal")
            case True
            with rd x nd nz rv ok1 show ?thesis
              by (subst readLine_loop.simps)
                (simp add: v_def [symmetric] i_def [symmetric] Let_def buffers_ok_unshift)
          next
            case False
            from "1.IH"(1) [OF rd [symmetric] x v_def nd i_def nz rv buffer'_def False ok1]
              rd x nd nz rv False show ?thesis
              by (subst readLine_loop.simps)
                (auto simp: v_def [symmetric] i_def [symmetric] buffer'_def Let_def)
          qed
        qed
      qed
    qed
  qed
qed

lemma buffers_ok_readToEnd_loop:
  "buffers_ok (snd s) \<Longrightarrow> buffers_ok (snd (snd (readToEnd_loop result s)))"
proof (induction result s rule: readToEnd_loop.induct)
  case (1 result s)
  obtain x s1 where rd: "read s = (x, s1)"
    by (cases "read s")
  from 1(2) rd have ok1: "buffers_ok (snd s1)"
    using buffers_ok_read [of s] by simp
  show ?case
  proof (cases x)
    case (Inl e)
    with rd ok1 show ?thesis
      by (subst readToEnd_loop.simps) simp
  next
    case (Inr res)
    show ?thesis
    proof (cases "is_done res")
      case True
      with rd Inr ok1 show ?thesis
        by (subst readToEnd_loop.simps) simp
    next
      case False
      from "1.IH" [OF rd [symmetric] Inr False ok1] rd Inr False show ?thesis
        by (subst readToEnd_loop.simps) simp
    qed
  qed
qed

lemma buffers_ok_peekBytes: "buffers_ok (snd s) \<Longrightarrow> buffers_ok (snd (snd (peekBytes n s)))"
  using buffers_ok_readBytes_loop [of s n "[]" 0]
  by (auto simp: peekBytes_def readBytes_def buffers_ok_unshift split: prod.splits sum.splits)

lemma buffers_ok_readToEnd: "buffers_ok (snd s) \<Longrightarrow> buffers_ok (snd (snd (readToEnd join s)))"
  using buffers_ok_readToEnd_loop [of s "[]"]
  by (auto simp: readToEnd_def split: prod.splits sum.splits)

text \<open>
  C7. No push-back buffer ever holds an empty or absent chunk. The invariant is stated
  for every array of the store, which covers the buffer of every reader and the buffers
  left on input objects by \<open>releaseLock\<close>: when it holds, the buffer of the reader holds
  present, non-empty chunks only, and it holds again after \<open>read\<close>, \<open>readByte\<close>,
  \<open>readBytes\<close>, \<open>peekBytes\<close>, \<open>readLine\<close>, \<open>unshift\<close>, \<open>releaseLock\<close>, \<open>readToEnd\<close> and
  the construction of a reader, whether the operation returns or throws.
\<close>

theorem buffer_invariant:
  "buffers_ok (snd s) \<Longrightarrow>
     list_all present_nonempty (buffer_of s) \<and>
     buffers_ok (snd (snd (read s))) \<and>
     buffers_ok (snd (snd (readByte s))) \<and>
     buffers_ok (snd (snd (readBytes n s))) \<and>
     buffers_ok (snd (snd (peekBytes n s))) \<and>
     buffers_ok (snd (snd (readLine s))) \<and>
     buffers_ok (snd (unshift vals s)) \<and>
     buffers_ok (snd (snd (releaseLock s))) \<and>
     buffers_ok (snd (snd (readToEnd join s))) \<and>
     buffers_ok (snd (Reader i (snd s)))"
  by (simp add: buffers_ok_read buffers_ok_readByte buffers_ok_readBytes_loop readBytes_def
      buffers_ok_peekBytes buffers_ok_readLine_loop readLine_def buffers_ok_unshift
      buffers_ok_releaseLock buffers_ok_readToEnd buffers_ok_Reader)
    (simp add: buffers_ok_def buffer_of_def split: option.splits)

theorem buffer_invariant_witness:
  "buffers_ok (snd (unshift [Str ''x''] (stream_reader [Str ''z'']))) \<and>
   list_all present_nonempty (buffer_of (unshift [Str ''x''] (stream_reader [Str ''z'']))) \<and>
   buffers_ok (snd (snd (read (unshift [Str ''x''] (stream_reader [Str ''z'']))))) \<and>
   buffers_ok (snd (snd (readByte (unshift [Str ''x''] (stream_reader [Str ''z'']))))) \<and>
   buffers_ok (snd (snd (readBytes 1 (unshift [Str ''x''] (stream_reader [Str ''z'']))))) \<and>
   buffers_ok (snd (snd (peekBytes 1 (unshift [Str ''x''] (stream_reader [Str ''z'']))))) \<and>
   buffers_ok (snd (snd (readLine (unshift [Str ''x''] (stream_reader [Str ''z'']))))) \<and>
   buffers_ok (snd (unshift [Undefined, Str ''q''] (unshift [Str ''x''] (stream_reader [Str ''z''])))) \<and>
   buffers_ok (snd (snd (releaseLock (unshift [Str ''x''] (stream_reader [Str ''z'']))))) \<and>
   buffers_ok (snd (snd (readToEnd streams_concat (unshift [Str ''x''] (stream_reader [Str ''z'']))))) \<and>
   buffers_ok (snd (Reader (Web 0) (snd (unshift [Str ''x''] (stream_reader [Str ''z''])))))"
proof -
  have "buffers_ok (snd (stream_reader [Str ''z'']))"
    by (simp add: stream_reader_def world0_def buffers_ok_def)
  then have h: "buffers_ok (snd (unshift [Str ''x''] (stream_reader [Str ''z''])))"
    by (rule buffers_ok_unshift)
  from h buffer_invariant [OF h, of 1 "[Undefined, Str ''q'']" streams_concat "Web 0"]
  show ?thesis by simp
qed

section \<open>Peeking at the end of the stream\<close>

lemma read_terminated:
  "terminated s \<Longrightarrow> buffer_of s = [] \<Longrightarrow> read s = (Inr (Result True Undefined), s)"
  by (cases s)
    (auto simp: terminated_def buffer_of_def read_def source_read_def
      split: option.splits list.splits source.splits)

lemma terminated_unshift: "terminated (unshift vals s) = terminated s"
  by (cases s; cases "extbuf (fst s)")
    (simp_all add: unshift_Some unshift_None terminated_def weakset_has_frame split: source.splits)

lemma unshift_nothing:
  "extbuf (fst s) \<noteq> None \<Longrightarrow> filter present_nonempty vals = [] \<Longrightarrow> unshift vals s = s"
  by (cases s; cases "extbuf (fst s)") (simp_all add: unshift_Some)

lemma unshift_frame:
  "stream (fst (unshift vals s)) = stream (fst s)"
  "source (fst (unshift vals s)) = source (fst s)"
  "streams (snd (unshift vals s)) = streams (snd s)"
  "doneReadingSet (snd (unshift vals s)) = doneReadingSet (snd s)"
  "extprop (snd (unshift vals s)) = extprop (snd s)"
  by (cases s; cases "extbuf (fst s)"; simp add: unshift_Some unshift_None)+

lemma peekBytes_terminated:
  assumes "terminated s" and "buffer_of s = []"
  shows "peekBytes n s = (Inr Undefined, unshift [Undefined] s)"
proof -
  from assms have "readBytes n s = (Inr Undefined, s)"
    unfolding readBytes_def by (subst readBytes_loop.simps) (simp add: read_terminated)
  then show ?thesis
    by (simp add: peekBytes_def)
qed

text \<open>
  C10, as stated, fails where it says that \<open>peekBytes\<close> leaves the state of the reader
  unchanged. A reader over the string \<open>abc\<close> that has read its value has a terminated
  source and no buffer array. \<open>peekBytes 1\<close> returns absent, but its \<open>unshift\<close> creates an
  empty buffer array: the state differs, and the difference shows in \<open>releaseLock\<close>, which
  returned normally before the peek and throws after it (the assignment of the array to
  a property of the primitive string).
\<close>

theorem peekBytes_at_end_counterexample:
  "terminated (snd (read (scalar_reader (Prim ''abc'')))) \<and>
   buffer_of (snd (read (scalar_reader (Prim ''abc'')))) = [] \<and>
   fst (peekBytes 1 (snd (read (scalar_reader (Prim ''abc''))))) = Inr Undefined \<and>
   snd (peekBytes 1 (snd (read (scalar_reader (Prim ''abc''))))) \<noteq>
     snd (read (scalar_reader (Prim ''abc''))) \<and>
   extbuf (fst (snd (read (scalar_reader (Prim ''abc''))))) = None \<and>
   extbuf (fst (snd (peekBytes 1 (snd (read (scalar_reader (Prim ''abc''))))))) = Some 0 \<and>
   fst (releaseLock (snd (read (scalar_reader (Prim ''abc''))))) = Inr () \<and>
   fst (releaseLock (snd (peekBytes 1 (snd (read (scalar_reader (Prim ''abc''))))))) =
     Inl TypeError"
proof -
  let ?s = "(\<lparr>stream = Prim ''abc'', extbuf = None, source = OneShot True\<rparr>, world0)"
  let ?s' = "(\<lparr>stream = Prim ''abc'', extbuf = Some 0, source = OneShot True\<rparr>,
      world0\<lparr>arrays := (arrays world0)(0 := []), fresh := Suc 0\<rparr>)"
  have s: "snd (read (scalar_reader (Prim ''abc''))) = ?s"
    by (simp add: scalar_reader_def read_def source_read_def weakset_has_def obj_id_def)
  have t: "terminated ?s" and b: "buffer_of ?s = []"
    by (simp_all add: terminated_def buffer_of_def)
  have p: "peekBytes 1 ?s = (Inr Undefined, ?s')"
    using peekBytes_terminated [OF t b, of 1]
    by (simp add: unshift_None present_nonempty_def world0_def)
  have r: "fst (releaseLock ?s) = Inr ()" and r': "fst (releaseLock ?s') = Inl TypeError"
    by (simp_all add: releaseLock_def obj_id_def)
  from t b p r r' show ?thesis
    unfolding s by simp
qed

text \<open>
  C10, amended. For a reader whose source is terminated and whose push-back buffer is
  empty or absent, \<open>peekBytes n\<close> returns absent for every \<open>n\<close>. No chunk is inserted into
  the buffer, the source stays terminated, and a \<open>read\<close> afterwards reports \<open>done\<close> and
  leaves the state as it is, so that every later \<open>read\<close> reports \<open>done\<close> as well. The
  wrapped input, the source handle, the streams, the registry of consumed values and the
  buffers attached to inputs are as before. A reader that had a buffer array is
  unchanged altogether; a reader that had none differs afterwards in exactly this: it
  has a new, empty buffer array (\<open>unshift\<close> creates it).
\<close>

theorem peekBytes_at_end:
  "terminated s \<Longrightarrow> buffer_of s = [] \<Longrightarrow>
     fst (peekBytes n s) = Inr Undefined \<and>
     buffer_of (snd (peekBytes n s)) = [] \<and>
     terminated (snd (peekBytes n s)) \<and>
     read (snd (peekBytes n s)) = (Inr (Result True Undefined), snd (peekBytes n s)) \<and>
     stream (fst (snd (peekBytes n s))) = stream (fst s) \<and>
     source (fst (snd (peekBytes n s))) = source (fst s) \<and>
     streams (snd (snd (peekBytes n s))) = streams (snd s) \<and>
     doneReadingSet (snd (snd (peekBytes n s))) = doneReadingSet (snd s) \<and>
     extprop (snd (snd (peekBytes n s))) = extprop (snd s) \<and>
     (extbuf (fst s) \<noteq> None \<longrightarrow> snd (peekBytes n s) = s) \<and>
     (extbuf (fst s) = None \<longrightarrow>
        snd (peekBytes n s) =
          ((fst s)\<lparr>extbuf := Some (fresh (snd s))\<rparr>,
           (snd s)\<lparr>arrays := (arrays (snd s))(fresh (snd s) := []),
             fresh := Suc (fresh (snd s))\<rparr>))"
proof -
  assume t: "terminated s" and b: "buffer_of s = []"
  let ?s' = "unshift [Undefined] s"
  have p: "peekBytes n s = (Inr Undefined, ?s')"
    using t b by (rule peekBytes_terminated)
  have b': "buffer_of ?s' = []"
    by (simp add: buffer_of_unshift b present_nonempty_def)
  have t': "terminated ?s'"
    by (simp add: terminated_unshift t)
  from t' b' have "read ?s' = (Inr (Result True Undefined), ?s')"
    by (rule read_terminated)
  moreover have "extbuf (fst s) \<noteq> None \<longrightarrow> ?s' = s"
    by (simp add: unshift_nothing present_nonempty_def)
  moreover have "extbuf (fst s) = None \<longrightarrow>
      ?s' = ((fst s)\<lparr>extbuf := Some (fresh (snd s))\<rparr>,
             (snd s)\<lparr>arrays := (arrays (snd s))(fresh (snd s) := []),
               fresh := Suc (fresh (snd s))\<rparr>)"
    using unshift_None [of "fst s" "[Undefined]" "snd s"]
    by (simp add: present_nonempty_def)
  ultimately show ?thesis
    using p b' t' by (simp add: unshift_frame)
qed

theorem peekBytes_at_end_witness:
  "terminated (stream_reader []) \<and> buffer_of (stream_reader []) = [] \<and>
   extbuf (fst (stream_reader [])) = None \<and>
   fst (peekBytes 7 (stream_reader [])) = Inr Undefined \<and>
   buffer_of (snd (peekBytes 7 (stream_reader []))) = [] \<and>
   fst (read (snd (peekBytes 7 (stream_reader [])))) = Inr (Result True Undefined) \<and>
   extbuf (fst (snd (peekBytes 7 (stream_reader [])))) = Some 0 \<and>
   arrays (snd (snd (peekBytes 7 (stream_reader [])))) 0 = [] \<and>
   terminated (unshift [] (stream_reader [])) \<and> buffer_of (unshift [] (stream_reader [])) = [] \<and>
   extbuf (fst (unshift [] (stream_reader []))) \<noteq> None \<and>
   fst (peekBytes 7 (unshift [] (stream_reader []))) = Inr Undefined \<and>
   snd (peekBytes 7 (unshift [] (stream_reader []))) = unshift [] (stream_reader [])"
proof -
  have t: "terminated (stream_reader [])"
    by (simp add: terminated_def stream_reader_def world0_def)
  have b: "buffer_of (stream_reader []) = []"
    by (simp add: buffer_of_def stream_reader_def)
  have e: "extbuf (fst (stream_reader [])) = None" and f: "fresh (snd (stream_reader [])) = 0"
    by (simp_all add: stream_reader_def world0_def)
  have t2: "terminated (unshift [] (stream_reader []))"
    by (simp add: terminated_unshift t)
  have b2: "buffer_of (unshift [] (stream_reader [])) = []"
    by (simp add: buffer_of_unshift b)
  have e2: "extbuf (fst (unshift [] (stream_reader []))) \<noteq> None"
    by (simp add: stream_reader_def unshift_None)
  note A = peekBytes_at_end [OF t b, of 7]
  note B = peekBytes_at_end [OF t2 b2, of 7]
  from A have a1: "fst (peekBytes 7 (stream_reader [])) = Inr Undefined"
    and a2: "buffer_of (snd (peekBytes 7 (stream_reader []))) = []"
    and a3: "fst (read (snd (peekBytes 7 (stream_reader [])))) = Inr (Result True Undefined)"
    by simp_all
  from A e f have "snd (peekBytes 7 (stream_reader [])) =
      ((fst (stream_reader []))\<lparr>extbuf := Some 0\<rparr>,
       (snd (stream_reader []))\<lparr>arrays := (arrays (snd (stream_reader [])))(0 := []),
         fresh := Suc 0\<rparr>)"
    by simp
  then have a4: "extbuf (fst (snd (peekBytes 7 (stream_reader [])))) = Some 0"
    and a5: "arrays (snd (snd (peekBytes 7 (stream_reader [])))) 0 = []"
    by simp_all
  from B e2 have b1: "fst (peekBytes 7 (unshift [] (stream_reader []))) = Inr Undefined"
    and b3: "snd (peekBytes 7 (unshift [] (stream_reader []))) = unshift [] (stream_reader [])"
    by simp_all
  from t b e a1 a2 a3 a4 a5 t2 b2 e2 b1 b3 show ?thesis
    by simp
qed

section \<open>Reading a fixed number of units\<close>

lemma read_live_value:
  "live s \<Longrightarrow> pending s = c # cs \<Longrightarrow>
     fst (read s) = Inr (Result False c) \<and> pending (snd (read s)) = cs \<and> live (snd (read s))"
  by (cases s)
    (auto simp: live_def read_def source_read_def pending_def buffer_of_def source_rest_def
      weakset_has_def split: option.splits list.splits source.splits if_splits)

lemma read_live_done:
  "live s \<Longrightarrow> pending s = [] \<Longrightarrow> read s = (Inr (Result True Undefined), s)"
  by (cases s)
    (auto simp: live_def read_def source_read_def pending_def buffer_of_def source_rest_def
      weakset_has_def split: option.splits list.splits source.splits if_splits)

lemma live_unshift: "live (unshift vals s) = live s"
  by (cases s; cases "extbuf (fst s)")
    (simp_all add: unshift_Some unshift_None live_def split: source.splits)

lemma same_kind_concat:
  "same_kind xs \<Longrightarrow> xs \<noteq> [] \<Longrightarrow> streams_concat xs = Inr (joined xs)"
  by (cases xs; cases "tl xs")
    (auto simp: same_kind_def streams_concat_def joined_def concatUint8Array_def isString_def
      isUint8Array_def bytes_of_def split: jsval.splits list.splits)

lemma same_kind_length:
  "same_kind xs \<Longrightarrow> c \<in> set xs \<Longrightarrow> js_length c = Inr (chunk_length c)"
  by (cases c) (auto simp: same_kind_def list_all_iff isString_def isUint8Array_def js_length_def chunk_length_def)

lemma slice_joined:
  "streams_slice (joined xs) n None = Inr (chunk_drop n (joined xs))"
  "streams_slice (joined xs) 0 (Some n) = Inr (chunk_take n (joined xs))"
  by (simp_all add: streams_slice_def joined_def chunk_drop_def chunk_take_def)

lemma total_length_snoc: "total_length (xs @ [c]) = total_length xs + chunk_length c"
  by (simp add: total_length_def)

lemma same_kind_prefix: "same_kind (xs @ c # cs) \<Longrightarrow> same_kind (xs @ [c]) \<and> same_kind ((xs @ [c]) @ cs)"
  by (auto simp: same_kind_def)

lemma readBytes_loop_refines:
  "live s \<Longrightarrow> same_kind (buffer @ pending s) \<Longrightarrow> bl = total_length buffer \<Longrightarrow>
   buffer = [] \<or> bl < n \<Longrightarrow>
     fst (readBytes_loop n buffer bl s) =
       Inr (readBytes_result n (fst (accumulate n buffer (pending s)))) \<and>
     pending (snd (readBytes_loop n buffer bl s)) =
       readBytes_pushback n (fst (accumulate n buffer (pending s))) @
       snd (accumulate n buffer (pending s)) \<and>
     take (length (readBytes_pushback n (fst (accumulate n buffer (pending s)))))
       (buffer_of (snd (readBytes_loop n buffer bl s))) =
       readBytes_pushback n (fst (accumulate n buffer (pending s))) \<and>
     live (snd (readBytes_loop n buffer bl s))"
proof (induction n buffer bl s rule: readBytes_loop.induct)
  case (1 n buffer bl s)
  note live = "1.prems"(1) and kind = "1.prems"(2) and bl = "1.prems"(3) and inv = "1.prems"(4)
  show ?case
  proof (cases "pending s")
    case Nil
    from live Nil have rd: "read s = (Inr (Result True Undefined), s)"
      by (rule read_live_done)
    from kind Nil have "buffer \<noteq> [] \<Longrightarrow> streams_concat buffer = Inr (joined buffer)"
      by (simp add: same_kind_concat)
    with rd Nil live bl inv show ?thesis
      by (subst (1 2 3 4) readBytes_loop.simps)
        (auto simp: readBytes_result_def readBytes_pushback_def)
  next
    case (Cons c cs)
    obtain x s1 where rd: "read s = (x, s1)"
      by (cases "read s")
    from read_live_value [OF live Cons] rd
    have x: "x = Inr (Result False c)" and p1: "pending s1 = cs" and live1: "live s1"
      by simp_all
    from kind Cons have len: "js_length c = Inr (chunk_length c)"
      by (simp add: same_kind_length)
    from kind Cons have k1: "same_kind (buffer @ [c])" and k2: "same_kind ((buffer @ [c]) @ cs)"
      using same_kind_prefix [of buffer c cs] by simp_all
    have tl: "total_length (buffer @ [c]) = bl + chunk_length c"
      by (simp add: total_length_snoc bl)
    show ?thesis
    proof (cases "n \<le> bl + chunk_length c")
      case True
      have acc: "accumulate n buffer (c # cs) = (buffer @ [c], cs)"
        using True tl by simp
      have cat: "streams_concat (buffer @ [c]) = Inr (joined (buffer @ [c]))"
        using k1 by (simp add: same_kind_concat)
      have loop: "readBytes_loop n buffer bl s =
          (Inr (chunk_take n (joined (buffer @ [c]))),
           unshift [chunk_drop n (joined (buffer @ [c]))] s1)"
        by (subst readBytes_loop.simps) (simp add: rd x len True cat slice_joined)
      have res: "readBytes_result n (buffer @ [c]) = chunk_take n (joined (buffer @ [c]))"
        using True tl by (simp add: readBytes_result_def)
      have pb: "readBytes_pushback n (buffer @ [c]) =
          filter present_nonempty [chunk_drop n (joined (buffer @ [c]))]"
        using True tl by (simp add: readBytes_pushback_def)
      show ?thesis
        unfolding Cons acc loop fst_conv snd_conv res pb
        by (simp add: pending_unshift buffer_of_unshift live_unshift p1 live1)
    next
      case False
      have acc: "accumulate n buffer (c # cs) = accumulate n (buffer @ [c]) cs"
        using False tl by simp
      have loop: "readBytes_loop n buffer bl s =
          readBytes_loop n (buffer @ [c]) (bl + chunk_length c) s1"
        by (subst readBytes_loop.simps) (simp add: rd x len False)
      from False have inv': "buffer @ [c] = [] \<or> bl + chunk_length c < n"
        by simp
      have e1: "(x, s1) = read s"
        using rd by simp
      have e3: "\<not> is_done (Result False c)"
        by simp
      have e4: "js_length (the_value (Result False c)) = Inr (chunk_length c)"
        using len by simp
      have e7: "same_kind ((buffer @ [the_value (Result False c)]) @ pending s1)"
        using k2 p1 by simp
      have e8: "bl + chunk_length c = total_length (buffer @ [the_value (Result False c)])"
        using tl by simp
      have e9: "buffer @ [the_value (Result False c)] = [] \<or> bl + chunk_length c < n"
        using False by simp
      note IH = "1.IH" [OF e1 x e3 e4 False live1 e7 e8 e9]
      have sel: "the_value (Result False c) = c"
        by simp
      from IH show ?thesis
        unfolding Cons acc loop sel p1 .
    qed
  qed
qed

lemma accumulate_append: "accumulate n acc cs = (a, r) \<Longrightarrow> a @ r = acc @ cs"
  by (induction cs arbitrary: acc) (auto split: if_splits)

lemma accumulate_empty: "fst (accumulate n acc cs) = [] \<longleftrightarrow> acc = [] \<and> cs = []"
  by (induction cs arbitrary: acc) auto

lemma accumulate_short: "accumulate n acc cs = (a, r) \<Longrightarrow> total_length a < n \<Longrightarrow> r = []"
  by (induction cs arbitrary: acc) (auto split: if_splits)

lemma same_kind_append: "same_kind (xs @ ys) \<Longrightarrow> same_kind xs \<and> same_kind ys"
  by (auto simp: same_kind_def)

lemma units_joined: "same_kind xs \<Longrightarrow> units (joined xs) = concat (map units xs)"
proof -
  have s: "list_all isString xs \<Longrightarrow> map CharUnit (concat (map str_of xs)) = concat (map units xs)"
    by (induction xs) (auto simp: isString_def str_of_def units_def split: jsval.splits)
  have b: "list_all isUint8Array xs \<Longrightarrow> map ByteUnit (concat (map bytes_of xs)) = concat (map units xs)"
    by (induction xs) (auto simp: isUint8Array_def bytes_of_def units_def split: jsval.splits)
  assume "same_kind xs"
  then show ?thesis
    using s b by (cases xs) (auto simp: same_kind_def joined_def units_def isString_def isUint8Array_def split: jsval.splits)
qed

lemma length_units: "length (units v) = chunk_length v"
  by (cases v) (simp_all add: units_def chunk_length_def)

lemma length_concat_units: "length (concat (map units xs)) = total_length xs"
  by (induction xs) (simp_all add: total_length_def length_units)

lemma units_take: "units (chunk_take n v) = take n (units v)"
  by (cases v) (simp_all add: units_def chunk_take_def take_map)

lemma units_drop: "units (chunk_drop n v) = drop n (units v)"
  by (cases v) (simp_all add: units_def chunk_drop_def drop_map)

lemma units_filter: "concat (map units (filter present_nonempty vs)) = concat (map units vs)"
  by (induction vs) (auto simp: present_nonempty_def units_def split: jsval.splits)

lemma readBytes_spec_units:
  assumes "same_kind cs"
  shows "units (fst (readBytes_spec n cs)) = take n (concat (map units cs))"
    and "concat (map units (snd (readBytes_spec n cs))) = drop n (concat (map units cs))"
    and "fst (readBytes_spec n cs) = Undefined \<longleftrightarrow> cs = []"
proof -
  obtain a r where acc: "accumulate n [] cs = (a, r)"
    by (cases "accumulate n [] cs")
  then have cs: "cs = a @ r"
    using accumulate_append [of n "[]" cs a r] by simp
  from assms cs have ka: "same_kind a"
    using same_kind_append by blast
  have ua: "units (joined a) = concat (map units a)"
    using ka by (rule units_joined)
  have la: "length (concat (map units a)) = total_length a"
    by (rule length_concat_units)
  have e: "a = [] \<longleftrightarrow> cs = []"
    using accumulate_empty [of n "[]" cs] acc by simp
  have sh: "total_length a < n \<Longrightarrow> r = []"
    using acc by (rule accumulate_short)
  have spec: "readBytes_spec n cs = (readBytes_result n a, readBytes_pushback n a @ r)"
    by (simp add: readBytes_spec_def acc)
  have uU: "units Undefined = []"
    by (simp add: units_def)
  have one: "concat (map units (filter present_nonempty [v])) = units v" for v
    using units_filter [of "[v]"] by simp
  have jn: "joined a \<noteq> Undefined" "chunk_take n (joined a) \<noteq> Undefined"
    by (simp_all add: joined_def chunk_take_def)
  consider (absent) "a = []" | (short) "a \<noteq> []" "total_length a < n"
    | (enough) "a \<noteq> []" "n \<le> total_length a"
    by fastforce
  then have "units (readBytes_result n a) = take n (concat (map units (a @ r))) \<and>
       concat (map units (readBytes_pushback n a @ r)) = drop n (concat (map units (a @ r))) \<and>
       (readBytes_result n a = Undefined \<longleftrightarrow> a = [])"
  proof cases
    case absent
    with e cs show ?thesis
      by (simp add: readBytes_result_def readBytes_pushback_def uU)
  next
    case short
    with sh have "r = []"
      by simp
    with short show ?thesis
      by (simp add: readBytes_result_def readBytes_pushback_def ua la jn)
  next
    case enough
    then have "readBytes_pushback n a = filter present_nonempty [chunk_drop n (joined a)]"
      by (simp add: readBytes_pushback_def del: filter.simps)
    then have "concat (map units (readBytes_pushback n a)) = units (chunk_drop n (joined a))"
      by (simp only: one)
    with enough show ?thesis
      by (simp add: readBytes_result_def units_take units_drop ua la jn)
  qed
  with e show "units (fst (readBytes_spec n cs)) = take n (concat (map units cs))"
    and "concat (map units (snd (readBytes_spec n cs))) = drop n (concat (map units cs))"
    and "fst (readBytes_spec n cs) = Undefined \<longleftrightarrow> cs = []"
    unfolding spec fst_conv snd_conv cs [symmetric] by simp_all
qed

lemma stream_reader_facts:
  "pending (stream_reader cs) = cs" "live (stream_reader cs)" "buffer_of (stream_reader cs) = []"
  by (simp_all add: stream_reader_def pending_def buffer_of_def source_rest_def live_def world0_def)

text \<open>
  C4. \<open>readBytes n\<close> on a reader whose source does not fail and whose pending chunks are
  of one kind (so that neither the source nor the concatenation throws) returns what the
  specification says: chunks are accumulated until the accumulated length is at least
  \<open>n\<close> or the source terminates; with no chunk accumulated the result is absent; when
  the source terminated first, the result is the whole accumulation, shorter than \<open>n\<close>;
  otherwise it is the first \<open>n\<close> units of the concatenation, and the remainder beyond
  offset \<open>n\<close> is put back at the front of the buffer as one chunk (an empty remainder is
  not put back). In terms of units: the result holds the first \<open>n\<close> units the reader
  could still deliver (all of them when there are fewer), the reader can deliver the
  units after them afterwards, and the result is absent exactly when there was no chunk
  to deliver. A non-empty accumulation is one of at least one chunk, which is one of at
  least one unit whenever the source delivers no empty chunk.
\<close>

theorem readBytes_refines_spec:
  "live s \<Longrightarrow> same_kind (pending s) \<Longrightarrow>
     fst (readBytes n s) = Inr (fst (readBytes_spec n (pending s))) \<and>
     pending (snd (readBytes n s)) = snd (readBytes_spec n (pending s)) \<and>
     take (length (readBytes_pushback n (fst (accumulate n [] (pending s)))))
       (buffer_of (snd (readBytes n s))) = readBytes_pushback n (fst (accumulate n [] (pending s))) \<and>
     live (snd (readBytes n s)) \<and>
     units (fst (readBytes_spec n (pending s))) = take n (pending_units s) \<and>
     pending_units (snd (readBytes n s)) = drop n (pending_units s) \<and>
     (fst (readBytes_spec n (pending s)) = Undefined \<longleftrightarrow> pending s = [])"
proof -
  assume l: "live s" and k: "same_kind (pending s)"
  from readBytes_loop_refines [of s "[]" 0 n] l k
  have r: "fst (readBytes n s) = Inr (fst (readBytes_spec n (pending s)))"
    "pending (snd (readBytes n s)) = snd (readBytes_spec n (pending s))"
    "take (length (readBytes_pushback n (fst (accumulate n [] (pending s)))))
       (buffer_of (snd (readBytes n s))) = readBytes_pushback n (fst (accumulate n [] (pending s)))"
    "live (snd (readBytes n s))"
    by (simp_all add: readBytes_def readBytes_spec_def total_length_def split: prod.splits)
  with readBytes_spec_units [OF k, of n] show ?thesis
    by (simp add: pending_units_def)
qed

theorem readBytes_refines_spec_witness:
  "live (stream_reader [Str ''hello'', Str ''world'']) \<and>
   same_kind (pending (stream_reader [Str ''hello'', Str ''world''])) \<and>
   fst (readBytes 100 (stream_reader [Str ''hello'', Str ''world''])) = Inr (Str ''helloworld'') \<and>
   pending (snd (readBytes 100 (stream_reader [Str ''hello'', Str ''world'']))) = [] \<and>
   fst (readBytes 7 (stream_reader [Str ''hello'', Str ''world''])) = Inr (Str ''hellowo'') \<and>
   pending (snd (readBytes 7 (stream_reader [Str ''hello'', Str ''world'']))) = [Str ''rld''] \<and>
   take 1 (buffer_of (snd (readBytes 7 (stream_reader [Str ''hello'', Str ''world''])))) = [Str ''rld''] \<and>
   fst (readBytes 3 (stream_reader [])) = Inr Undefined"
proof -
  let ?s = "stream_reader [Str ''hello'', Str ''world'']"
  have l: "live ?s" and l0: "live (stream_reader [])"
    by (rule stream_reader_facts)+
  have k: "same_kind (pending ?s)" and k0: "same_kind (pending (stream_reader []))"
    by (simp_all add: stream_reader_facts same_kind_def isString_def)
  have s100: "readBytes_spec 100 [Str ''hello'', Str ''world''] = (Str ''helloworld'', [])"
    by (simp add: readBytes_spec_def readBytes_result_def readBytes_pushback_def total_length_def
        chunk_length_def joined_def isString_def str_of_def)
  have s7: "readBytes_spec 7 [Str ''hello'', Str ''world''] = (Str ''hellowo'', [Str ''rld''])"
    by (simp add: readBytes_spec_def readBytes_result_def readBytes_pushback_def total_length_def
        chunk_length_def joined_def isString_def str_of_def chunk_take_def chunk_drop_def
        present_nonempty_def)
  have p7: "readBytes_pushback 7 (fst (accumulate 7 [] [Str ''hello'', Str ''world''])) = [Str ''rld'']"
    by (simp add: readBytes_pushback_def total_length_def chunk_length_def joined_def isString_def
        str_of_def chunk_drop_def present_nonempty_def)
  have s0: "readBytes_spec 3 [] = (Undefined, [])"
    by (simp add: readBytes_spec_def readBytes_result_def readBytes_pushback_def)
  note A = readBytes_refines_spec [OF l k, of 100, unfolded stream_reader_facts s100 fst_conv snd_conv]
  note B = readBytes_refines_spec [OF l k, of 7, unfolded stream_reader_facts s7 p7 fst_conv snd_conv]
  note C = readBytes_refines_spec [OF l0 k0, of 3, unfolded stream_reader_facts s0 fst_conv snd_conv]
  from A B C l k show ?thesis
    by (simp add: stream_reader_facts)
qed

section \<open>Peeking is not destructive\<close>

lemma read_unshift_front:
  "present_nonempty v \<Longrightarrow> read (unshift [v] s) = (Inr (Result False v), unshift [] s)"
  by (cases s; cases "extbuf (fst s)") (simp_all add: unshift_Some unshift_None read_def)

lemma unshift_dropped: "filter present_nonempty vs = [] \<Longrightarrow> unshift vs s = unshift [] s"
  by (cases s; cases "extbuf (fst s)") (simp_all add: unshift_Some unshift_None)

lemma unshift_unshift_nothing: "unshift [] (unshift ws s) = unshift ws s"
  by (cases s; cases "extbuf (fst s)") (simp_all add: unshift_Some unshift_None)

lemma read_done_unshift:
  "read s = (Inr (Result True x), s') \<Longrightarrow>
   read (unshift [] s) = (Inr (Result True Undefined), unshift [] s)"
  by (cases s; cases "extbuf (fst s)")
    (auto simp: unshift_Some unshift_None read_def source_read_def weakset_has_frame
      split: list.splits source.splits if_splits ending.splits)

lemma concat_single: "streams_concat [v] = Inr v"
  by (cases v) (simp_all add: streams_concat_def concatUint8Array_def isString_def str_of_def)

lemma concat_joined:
  "streams_concat xs = Inr v \<Longrightarrow> (\<exists>x. xs = [x] \<and> v = x) \<or> (same_kind xs \<and> v = joined xs)"
  by (cases xs; cases "tl xs")
    (auto simp: streams_concat_def concatUint8Array_def same_kind_def joined_def
      split: if_splits list.splits)

lemma units_concat: "streams_concat xs = Inr v \<Longrightarrow> units v = concat (map units xs)"
  using concat_joined [of xs v] units_joined [of xs] by auto

lemma present_nonempty_units: "present_nonempty v \<longleftrightarrow> units v \<noteq> []"
  by (cases v) (simp_all add: present_nonempty_def units_def)

lemma concat_present:
  "streams_concat xs = Inr v \<Longrightarrow> list_all present_nonempty xs \<Longrightarrow> xs \<noteq> [] \<Longrightarrow> present_nonempty v"
  by (cases xs) (auto simp: present_nonempty_units units_concat)

lemma concat_length: "streams_concat xs = Inr v \<Longrightarrow> chunk_length v = total_length xs"
  using length_units [of v] length_concat_units [of xs] by (simp add: units_concat)

lemma present_js_length: "v \<noteq> Undefined \<Longrightarrow> js_length v = Inr (chunk_length v)"
  by (cases v) (simp_all add: js_length_def chunk_length_def)

lemma present_slice:
  "v \<noteq> Undefined \<Longrightarrow> streams_slice v n None = Inr (chunk_drop n v)"
  "v \<noteq> Undefined \<Longrightarrow> streams_slice v 0 (Some n) = Inr (chunk_take n v)"
  by (cases v; simp add: streams_slice_def chunk_drop_def chunk_take_def)+

lemma present_defined: "present_nonempty v \<Longrightarrow> v \<noteq> Undefined"
  by (auto simp: present_nonempty_def)

lemma chunk_take_facts:
  "n \<le> chunk_length v \<Longrightarrow> chunk_length (chunk_take n v) = n"
  "chunk_take n (chunk_take n v) = chunk_take n v"
  "chunk_take n v = Undefined \<longleftrightarrow> v = Undefined"
  by (cases v; simp add: chunk_take_def chunk_length_def)+

lemma chunk_take_present: "0 < n \<Longrightarrow> present_nonempty v \<Longrightarrow> present_nonempty (chunk_take n v)"
  by (cases v) (auto simp: chunk_take_def present_nonempty_def)

lemma chunk_take_0: "\<not> present_nonempty (chunk_take 0 v)"
  by (cases v) (auto simp: chunk_take_def present_nonempty_def)

lemma chunk_drop_0: "chunk_drop 0 v = v"
  by (cases v) (auto simp: chunk_drop_def)

text \<open>Reading again right after a successful read of a present, non-empty result that was pushed back.\<close>

lemma readBytes_again_full:
  assumes "present_nonempty v" and "chunk_length v = n"
  shows "fst (readBytes n (unshift [v] s)) = Inr v"
proof -
  from assms(1) have d: "v \<noteq> Undefined"
    by (rule present_defined)
  have t: "chunk_take n v = v"
    using assms(2) by (cases v) (simp_all add: chunk_take_def chunk_length_def)
  show ?thesis
    unfolding readBytes_def
    by (subst readBytes_loop.simps)
      (simp add: read_unshift_front assms present_js_length d concat_single present_slice t)
qed

lemma readBytes_again_short:
  assumes "present_nonempty v" and "chunk_length v < n" and "read s = (Inr (Result True x), s')"
  shows "fst (readBytes n (unshift [v] s)) = Inr v"
proof -
  from assms(1) have d: "v \<noteq> Undefined"
    by (rule present_defined)
  have "readBytes_loop n [v] (chunk_length v) (unshift [] s) = (Inr v, unshift [] s)"
    by (subst readBytes_loop.simps) (simp add: read_done_unshift [OF assms(3)] concat_single)
  then show ?thesis
    unfolding readBytes_def using assms(2)
    by (subst readBytes_loop.simps)
      (simp add: read_unshift_front assms(1) present_js_length d)
qed

lemma readBytes_again_absent:
  assumes "read s = (Inr (Result True x), s')"
  shows "fst (readBytes n (unshift [Undefined] s)) = Inr Undefined"
proof -
  have u: "unshift [Undefined] s = unshift [] s"
    by (rule unshift_dropped) (simp add: present_nonempty_def)
  show ?thesis
    unfolding readBytes_def u
    by (subst readBytes_loop.simps) (simp add: read_done_unshift [OF assms])
qed

lemma readBytes_again_zero:
  assumes "present_nonempty c"
  shows "fst (readBytes 0 (unshift [chunk_take 0 c] (unshift [c] s))) = Inr (chunk_take 0 c)"
proof -
  from assms have d: "c \<noteq> Undefined"
    by (rule present_defined)
  have u: "unshift [chunk_take 0 c] (unshift [c] s) = unshift [c] s"
    using unshift_dropped [of "[chunk_take 0 c]" "unshift [c] s"]
    by (simp add: chunk_take_0 unshift_unshift_nothing)
  show ?thesis
    unfolding readBytes_def u
    by (subst readBytes_loop.simps)
      (simp add: read_unshift_front assms present_js_length d concat_single present_slice)
qed

lemma readBytes_loop_again:
  "list_all present_nonempty (buffer @ pending s) \<Longrightarrow> bl = total_length buffer \<Longrightarrow>
   buffer = [] \<or> bl < n \<Longrightarrow> fst (readBytes_loop n buffer bl s) = Inr v \<Longrightarrow>
     fst (readBytes n (unshift [v] (snd (readBytes_loop n buffer bl s)))) = Inr v \<and>
     units v @ pending_units (snd (readBytes_loop n buffer bl s)) =
       concat (map units buffer) @ pending_units s"
proof (induction n buffer bl s rule: readBytes_loop.induct)
  case (1 n buffer bl s)
  note pn = "1.prems"(1) and bl = "1.prems"(2) and inv = "1.prems"(3) and ok = "1.prems"(4)
  obtain x s1 where rd: "read s = (x, s1)"
    by (cases "read s")
  show ?case
  proof (cases x)
    case (Inl e)
    with rd ok show ?thesis
      by (subst (asm) readBytes_loop.simps) simp
  next
    case (Inr res)
    note x = this
    show ?thesis
    proof (cases "is_done res")
      case True
      with rd x have rd': "read s = (Inr (Result True (the_value res)), s1)"
        by (cases res) simp
      from read_done [OF rd'] have s1: "s1 = s" and p: "pending s = []"
        by simp_all
      show ?thesis
      proof (cases "buffer = []")
        case True
        have loop: "readBytes_loop n buffer bl s = (Inr Undefined, s)"
          by (subst readBytes_loop.simps) (simp add: rd' s1 True)
        with ok have v: "v = Undefined"
          by simp
        from readBytes_again_absent [OF rd', of n] show ?thesis
          unfolding loop by (simp add: v True units_def)
      next
        case False
        have loop: "readBytes_loop n buffer bl s = (streams_concat buffer, s)"
          by (subst readBytes_loop.simps) (simp add: rd' s1 False)
        with ok have c: "streams_concat buffer = Inr v"
          by simp
        from pn have pb: "list_all present_nonempty buffer"
          by simp
        from concat_present [OF c pb False] have pv: "present_nonempty v" .
        from concat_length [OF c] bl inv False have lv: "chunk_length v < n"
          by simp
        from readBytes_again_short [OF pv lv rd'] units_concat [OF c]
        show ?thesis
          unfolding loop by (simp add: pending_units_def p)
      qed
    next
      case False
      note nd = this
      define c where "c = the_value res"
      from rd x nd have rd': "read s = (Inr (Result False c), s1)"
        by (cases res) (simp add: c_def)
      from read_value [OF rd'] have p: "pending s = c # pending s1" .
      from pn p have pc: "present_nonempty c"
        by simp
      then have dc: "c \<noteq> Undefined"
        by (rule present_defined)
      have len: "js_length c = Inr (chunk_length c)"
        using dc by (simp add: present_js_length)
      then have len': "js_length (the_value res) = Inr (chunk_length c)"
        by (simp add: c_def)
      have tl: "total_length (buffer @ [c]) = bl + chunk_length c"
        by (simp add: total_length_snoc bl)
      show ?thesis
      proof (cases "n \<le> bl + chunk_length c")
        case True
        show ?thesis
        proof (cases "streams_concat (buffer @ [c])")
          case (Inl e)
          have "fst (readBytes_loop n buffer bl s) = Inl e"
            by (subst readBytes_loop.simps) (simp add: rd x nd len True Inl c_def [symmetric])
          with ok show ?thesis
            by simp
        next
          case (Inr C)
          from pn p have "list_all present_nonempty (buffer @ [c])"
            by simp
          from concat_present [OF Inr this] have pC: "present_nonempty C"
            by simp
          then have dC: "C \<noteq> Undefined"
            by (rule present_defined)
          have lC: "chunk_length C = bl + chunk_length c"
            using concat_length [OF Inr] tl by simp
          have loop: "readBytes_loop n buffer bl s =
              (Inr (chunk_take n C), unshift [chunk_drop n C] s1)"
            by (subst readBytes_loop.simps)
              (simp add: rd x nd len True Inr c_def [symmetric] present_slice dC)
          with ok have v: "v = chunk_take n C"
            by simp
          have again: "fst (readBytes n (unshift [v] (unshift [chunk_drop n C] s1))) = Inr v"
          proof (cases "n = 0")
            case True
            with inv have "buffer = []"
              by simp
            with Inr have "C = c"
              by (simp add: concat_single)
            with True v pc readBytes_again_zero [of c s1] show ?thesis
              by (simp add: chunk_drop_0)
          next
            case False
            with pC have "present_nonempty v"
              by (simp add: v chunk_take_present)
            moreover have "chunk_length v = n"
              using True lC by (simp add: v chunk_take_facts)
            ultimately show ?thesis
              by (rule readBytes_again_full)
          qed
          have "units v @ pending_units (unshift [chunk_drop n C] s1) =
              units C @ pending_units s1"
            using units_filter [of "[chunk_drop n C]"]
            by (simp add: v pending_units_def pending_unshift units_take units_drop
                del: filter.simps)
          with again show ?thesis
            unfolding loop by (simp add: units_concat [OF Inr] pending_units_def p)
        qed
      next
        case False
        have loop: "readBytes_loop n buffer bl s =
            readBytes_loop n (buffer @ [c]) (bl + chunk_length c) s1"
          by (subst readBytes_loop.simps) (simp add: rd x nd len False c_def [symmetric])
        have e1: "(x, s1) = read s"
          using rd by simp
        have e7: "list_all present_nonempty ((buffer @ [the_value res]) @ pending s1)"
          using pn p by (simp add: c_def)
        have e8: "bl + chunk_length c = total_length (buffer @ [the_value res])"
          using tl by (simp add: c_def)
        have e9: "buffer @ [the_value res] = [] \<or> bl + chunk_length c < n"
          using False by simp
        have e10: "fst (readBytes_loop n (buffer @ [the_value res]) (bl + chunk_length c) s1) = Inr v"
          using ok loop by (simp add: c_def)
        from "1.IH" [OF e1 x nd len' False e7 e8 e9 e10] show ?thesis
          unfolding loop by (simp add: c_def [symmetric] pending_units_def p)
      qed
    qed
  qed
qed

text \<open>
  C3, as the specification states it, fails for a reader over an empty value: the
  one-shot source delivers the empty chunk, \<open>peekBytes 1\<close> returns it (a short read of
  no units), its push-back is dropped by the filter of \<open>unshift\<close>, and the \<open>readBytes 1\<close>
  that follows finds nothing and returns absent.
\<close>

theorem peek_then_read_counterexample:
  "Reader (Prim []) world0 = (Inr (fst (scalar_reader (Prim []))), snd (scalar_reader (Prim []))) \<and>
   fst (peekBytes 1 (scalar_reader (Prim []))) = Inr (Str []) \<and>
   fst (readBytes 1 (snd (peekBytes 1 (scalar_reader (Prim []))))) = Inr Undefined \<and>
   fst (peekBytes 1 (scalar_reader (Prim []))) \<noteq>
     fst (readBytes 1 (snd (peekBytes 1 (scalar_reader (Prim [])))))"
proof -
  have c: "Reader (Prim []) world0 = (Inr (fst (scalar_reader (Prim []))), snd (scalar_reader (Prim [])))"
    by (simp add: Reader_def scalar_reader_def inherited_def obj_id_def)
  have p: "fst (peekBytes 1 (scalar_reader (Prim []))) = Inr (Str [])"
    by (simp add: peekBytes_def readBytes_def readBytes_loop.simps read_def source_read_def
        scalar_reader_def world0_def weakset_has_def obj_id_def chunk_of_def js_length_def
        streams_concat_def isString_def str_of_def)
  have r: "fst (readBytes 1 (snd (peekBytes 1 (scalar_reader (Prim []))))) = Inr Undefined"
    by (simp add: peekBytes_def readBytes_def readBytes_loop.simps read_def source_read_def
        scalar_reader_def world0_def weakset_has_def obj_id_def chunk_of_def js_length_def
        streams_concat_def isString_def str_of_def unshift_def array_new_def keep_def truthy_def)
  from c p r show ?thesis
    by simp
qed

text \<open>
  C3, amended. For a reader whose pending chunks (those in its buffer and those its
  source still holds) are all present and non-empty, and for every \<open>n\<close>: when
  \<open>peekBytes n\<close> returns a result, the \<open>readBytes n\<close> that follows returns the same
  result, whether \<open>n\<close> units were there or the source ended before (the short read); it is
  the result \<open>readBytes n\<close> would have returned in place of the peek; and the sequence of
  units the reader can still deliver is the same after the peek as before.
\<close>

theorem peek_then_read:
  "list_all present_nonempty (pending s) \<Longrightarrow> fst (peekBytes n s) = Inr v \<Longrightarrow>
     fst (readBytes n (snd (peekBytes n s))) = Inr v \<and>
     fst (readBytes n s) = Inr v \<and>
     pending_units (snd (peekBytes n s)) = pending_units s"
proof -
  assume pn: "list_all present_nonempty (pending s)" and ok: "fst (peekBytes n s) = Inr v"
  obtain y s1 where rb: "readBytes n s = (y, s1)"
    by (cases "readBytes n s")
  with ok have y: "y = Inr v"
    by (cases y) (simp_all add: peekBytes_def)
  with rb have pk: "peekBytes n s = (Inr v, unshift [v] s1)"
    by (simp add: peekBytes_def)
  from rb y have l: "fst (readBytes_loop n [] 0 s) = Inr v" "snd (readBytes_loop n [] 0 s) = s1"
    by (simp_all add: readBytes_def)
  from readBytes_loop_again [of "[]" s 0 n v] pn l
  have "fst (readBytes n (unshift [v] s1)) = Inr v" and "units v @ pending_units s1 = pending_units s"
    by (simp_all add: total_length_def)
  moreover have "pending_units (unshift [v] s1) = units v @ pending_units s1"
    using units_filter [of "[v]"]
    by (simp add: pending_units_def pending_unshift del: filter.simps)
  ultimately show ?thesis
    using rb y by (simp add: pk)
qed

theorem peek_then_read_witness:
  "list_all present_nonempty (pending (stream_reader [Str ''ab'', Str ''cd''])) \<and>
   fst (peekBytes 3 (stream_reader [Str ''ab'', Str ''cd''])) = Inr (Str ''abc'') \<and>
   fst (readBytes 3 (snd (peekBytes 3 (stream_reader [Str ''ab'', Str ''cd''])))) = Inr (Str ''abc'') \<and>
   fst (peekBytes 9 (stream_reader [Str ''ab'', Str ''cd''])) = Inr (Str ''abcd'') \<and>
   fst (readBytes 9 (snd (peekBytes 9 (stream_reader [Str ''ab'', Str ''cd''])))) = Inr (Str ''abcd'') \<and>
   pending_units (snd (peekBytes 3 (stream_reader [Str ''ab'', Str ''cd'']))) =
     pending_units (stream_reader [Str ''ab'', Str ''cd''])"
proof -
  let ?s = "stream_reader [Str ''ab'', Str ''cd'']"
  have h: "list_all present_nonempty (pending ?s)"
    by (simp add: stream_reader_facts present_nonempty_def)
  have p3: "fst (peekBytes 3 ?s) = Inr (Str ''abc'')"
    by (simp add: peekBytes_def readBytes_def readBytes_loop.simps read_def source_read_def
        stream_reader_def world0_def js_length_def streams_slice_def
        streams_concat_def isString_def str_of_def)
  have p9: "fst (peekBytes 9 ?s) = Inr (Str ''abcd'')"
    by (simp add: peekBytes_def readBytes_def readBytes_loop.simps read_def source_read_def
        stream_reader_def world0_def js_length_def streams_slice_def
        streams_concat_def isString_def str_of_def)
  from peek_then_read [OF h p3] peek_then_read [OF h p9] h p3 p9 show ?thesis
    by simp
qed

section \<open>Line splitting\<close>

text \<open>
  C5. A reader over a source that yields exactly the four text chunks \<open>ab\<close>,
  \<open>c<newline>de\<close>, \<open>f<newline>\<close> and \<open>g\<close>, one per pull, answers four successive
  \<open>readLine\<close> calls with \<open>abc<newline>\<close>, then \<open>def<newline>\<close>, then \<open>g\<close> (on
  termination), then absent.
\<close>

theorem readLine_example:
  "fst (readLine line_reader) = Inr (Str ''abc\<newline>'') \<and>
   fst (readLine (snd (readLine line_reader))) = Inr (Str ''def\<newline>'') \<and>
   fst (readLine (snd (readLine (snd (readLine line_reader))))) = Inr (Str ''g'') \<and>
   fst (readLine (snd (readLine (snd (readLine (snd (readLine line_reader))))))) = Inr Undefined"
  by (simp add: readLine_def readLine_loop.simps read_def source_read_def
      stream_reader_def world0_def to_string_def streams_concat_def isString_def str_of_def
      truthy_def unshift_def array_new_def keep_def js_length_def Let_def line_reader_def)

section \<open>A single value is read exactly once\<close>










section \<open>Handing the buffer over on release\<close>

lemma source_release_frame:
  "arrays (snd (source_release s)) = arrays (snd s)"
  "extprop (snd (source_release s)) = extprop (snd s)"
  by (cases s; auto simp: source_release_def weakset_add_def split: source.splits option.splits)+

text \<open>
  C6, as the specification states it, fails twice. The array attached to the input is
  the buffer of the released reader itself, not a copy: a chunk pushed back on the
  released reader after the release is what the next reader over the input reads first.
  And the buffer is attached whenever the reader has a buffer array, also an empty one
  (an empty array is truthy): this is what replaces an older attached buffer whose chunks
  the released reader has consumed.
\<close>

theorem releaseLock_hands_over_counterexample:
  "first_read_of_new_reader (Web 0)
     (snd (unshift [Str ''b''] (snd (releaseLock (unshift [Str ''a''] (stream_reader [])))))) =
     Inr (Result False (Str ''b'')) \<and>
   buffer_of (unshift [] (stream_reader [])) = [] \<and>
   extprop (snd (stream_reader [])) 0 = None \<and>
   extprop (snd (snd (releaseLock (unshift [] (stream_reader []))))) 0 = Some 0"
  by (simp add: first_read_of_new_reader_def Reader_def inherited_def obj_id_def array_copy_def
      read_def releaseLock_def source_release_def unshift_def array_new_def keep_def truthy_def
      js_length_def stream_reader_def world0_def buffer_of_def)

text \<open>
  C6, amended. For a reader over an input that is an object, \<open>releaseLock\<close> returns
  normally; if and only if the reader has a buffer array (empty or not) it attaches that
  very array to the input, and it changes no array; then it releases the source handle:
  a stream is unlocked and the handle marked released, a consumed one-shot value is
  entered in the registry. The copy is taken by the constructor: a reader constructed
  over an input with an attached array gets a new array holding what the attached one
  holds at that moment. So what the released reader pushes back before that construction
  is inherited, and what it pushes back afterwards (on the array, allocated earlier) is
  not.
\<close>

theorem releaseLock_hands_over:
  "obj_id (stream r) = Some i \<Longrightarrow>
     fst (releaseLock (r, w)) = Inr () \<and>
     snd (releaseLock (r, w)) =
       source_release (r, w\<lparr>extprop := (case extbuf r of Some a \<Rightarrow> (extprop w)(i \<mapsto> a) | None \<Rightarrow> extprop w)\<rparr>) \<and>
     extprop (snd (snd (releaseLock (r, w)))) =
       (case extbuf r of Some a \<Rightarrow> (extprop w)(i \<mapsto> a) | None \<Rightarrow> extprop w) \<and>
     arrays (snd (snd (releaseLock (r, w)))) = arrays w \<and>
     (\<forall>sa. source r = StreamReader sa False \<longrightarrow>
        \<not> locked (streams (snd (snd (releaseLock (r, w)))) sa) \<and>
        source (fst (snd (releaseLock (r, w)))) = StreamReader sa True) \<and>
     (source r = OneShot True \<longrightarrow> i \<in> doneReadingSet (snd (snd (releaseLock (r, w))))) \<and>
     (\<forall>w2 a. extprop w2 i = Some a \<longrightarrow>
        arrays (snd (Reader (stream r) w2)) = (arrays w2)(fresh w2 := arrays w2 a) \<and>
        (\<forall>r2. fst (Reader (stream r) w2) = Inr r2 \<longrightarrow>
           extbuf r2 = Some (fresh w2) \<and> buffer_of (r2, snd (Reader (stream r) w2)) = arrays w2 a \<and>
           (\<forall>r' vals. extbuf r' = Some a \<and> a < fresh w2 \<longrightarrow>
              buffer_of (r2, snd (unshift vals (r', snd (Reader (stream r) w2)))) = arrays w2 a)))"
proof -
  assume i: "obj_id (stream r) = Some i"
  let ?w' = "w\<lparr>extprop := (case extbuf r of Some a \<Rightarrow> (extprop w)(i \<mapsto> a) | None \<Rightarrow> extprop w)\<rparr>"
  have rel: "releaseLock (r, w) = (Inr (), source_release (r, ?w'))"
    using i by (cases "extbuf r") (simp_all add: releaseLock_def)
  have src: "\<forall>sa. source r = StreamReader sa False \<longrightarrow>
        \<not> locked (streams (snd (source_release (r, ?w'))) sa) \<and>
        source (fst (source_release (r, ?w'))) = StreamReader sa True"
    by (simp add: source_release_def)
  have one: "source r = OneShot True \<longrightarrow> i \<in> doneReadingSet (snd (source_release (r, ?w')))"
    using i by (simp add: source_release_def weakset_add_def)
  have new: "\<forall>w2 a. extprop w2 i = Some a \<longrightarrow>
        arrays (snd (Reader (stream r) w2)) = (arrays w2)(fresh w2 := arrays w2 a) \<and>
        (\<forall>r2. fst (Reader (stream r) w2) = Inr r2 \<longrightarrow>
           extbuf r2 = Some (fresh w2) \<and> buffer_of (r2, snd (Reader (stream r) w2)) = arrays w2 a \<and>
           (\<forall>r' vals. extbuf r' = Some a \<and> a < fresh w2 \<longrightarrow>
              buffer_of (r2, snd (unshift vals (r', snd (Reader (stream r) w2)))) = arrays w2 a))"
    using i
    by (auto simp: Reader_def inherited_def array_copy_def buffer_of_def unshift_Some
        split: input.splits)
  from src one new show ?thesis
    unfolding rel fst_conv snd_conv by (simp add: source_release_frame)
qed

theorem releaseLock_hands_over_witness:
  "obj_id (stream (fst buffered_reader)) = Some 0 \<and>
   fst (releaseLock buffered_reader) = Inr () \<and>
   extprop (snd (snd (releaseLock buffered_reader))) 0 = Some 0 \<and>
   \<not> locked (streams (snd (snd (releaseLock buffered_reader))) 0) \<and>
   first_read_of_new_reader (Web 0) (snd (snd (releaseLock buffered_reader))) =
     Inr (Result False (Str ''a''))"
proof -
  have h: "obj_id (stream (fst buffered_reader)) = Some 0"
    by (simp add: buffered_reader_def obj_id_def)
  note t = releaseLock_hands_over [OF h, of "snd buffered_reader", unfolded prod.collapse]
  from t have a: "fst (releaseLock buffered_reader) = Inr ()"
    by blast
  from t have "extprop (snd (snd (releaseLock buffered_reader))) =
      (case extbuf (fst buffered_reader) of Some a \<Rightarrow> (extprop (snd buffered_reader))(0 \<mapsto> a)
       | None \<Rightarrow> extprop (snd buffered_reader))"
    by blast
  then have b: "extprop (snd (snd (releaseLock buffered_reader))) 0 = Some 0"
    by (simp add: buffered_reader_def)
  from t have "\<forall>sa. source (fst buffered_reader) = StreamReader sa False \<longrightarrow>
        \<not> locked (streams (snd (snd (releaseLock buffered_reader))) sa) \<and>
        source (fst (snd (releaseLock buffered_reader))) = StreamReader sa True"
    by blast
  then have c: "\<not> locked (streams (snd (snd (releaseLock buffered_reader))) 0)"
    by (simp add: buffered_reader_def)
  have f: "first_read_of_new_reader (Web 0) (snd (snd (releaseLock buffered_reader))) =
     Inr (Result False (Str ''a''))"
    by (simp add: buffered_reader_def first_read_of_new_reader_def Reader_def inherited_def
        obj_id_def array_copy_def read_def releaseLock_def source_release_def world0_def)
  from h a b c f show ?thesis
    by simp
qed

section \<open>Errors of the pull-to-push adapter\<close>

lemma read_fails_value:
  "source_fails sa msg s \<Longrightarrow> pending s = c # cs \<Longrightarrow>
     fst (read s) = Inr (Result False c) \<and> pending (snd (read s)) = cs \<and>
     source_fails sa msg (snd (read s))"
  by (cases s)
    (auto simp: source_fails_def read_def source_read_def pending_def buffer_of_def source_rest_def
      split: option.splits list.splits)

lemma read_fails_end:
  "source_fails sa msg s \<Longrightarrow> pending s = [] \<Longrightarrow> read s = (Inl (SourceError msg), s)"
  by (cases s)
    (auto simp: source_fails_def read_def source_read_def pending_def buffer_of_def source_rest_def
      split: option.splits list.splits)

lemma drain_source_fails:
  "source_fails sa msg (reader_st nr) \<Longrightarrow> \<forall>evs v. k evs v = Inr True \<Longrightarrow> \<not> cancelling nr \<Longrightarrow>
     fst (drain k nr) = Inl (SourceError msg) \<and>
     events (snd (drain k nr)) = events nr @ map Pushed (pending (reader_st nr))"
proof (induction k nr rule: drain.induct)
  case (1 k nr)
  note f = "1.prems"(1) and acc = "1.prems"(2) and nc = "1.prems"(3)
  show ?case
  proof (cases "pending (reader_st nr)")
    case Nil
    from read_fails_end [OF f Nil] show ?thesis
      by (subst (1 2) drain.simps) (simp add: Nil)
  next
    case (Cons c cs)
    obtain x s1 where rd: "read (reader_st nr) = (x, s1)"
      by (cases "read (reader_st nr)")
    from read_fails_value [OF f Cons] rd
    have x: "x = Inr (Result False c)" and p1: "pending s1 = cs" and f1: "source_fails sa msg s1"
      by simp_all
    let ?nr2 = "nr\<lparr>reader_st := s1, events := events nr @ [Pushed c]\<rparr>"
    have pu: "push k (Some c) (nr\<lparr>reader_st := s1\<rparr>) = (Inr True, ?nr2)"
      using acc by (simp add: push_def)
    have step: "drain k nr = drain k ?nr2"
      by (subst drain.simps) (simp add: rd x pu nc)
    have e1: "(x, s1) = read (reader_st nr)"
      using rd by simp
    have e3: "\<not> is_done (Result False c)"
      by simp
    have e4: "(Inr True, ?nr2) = push k (Some (the_value (Result False c))) (nr\<lparr>reader_st := s1\<rparr>)"
      using pu by simp
    have e5: "\<not> (\<not> True \<or> cancelling ?nr2)"
      using nc by simp
    have e6: "source_fails sa msg (reader_st ?nr2)"
      using f1 by simp
    have e7: "\<not> cancelling ?nr2"
      using nc by simp
    from "1.IH" [OF e1 x e3 e4 refl e5 e6 acc e7] show ?thesis
      unfolding step by (simp add: Cons p1)
  qed
qed

lemma failing_adapter_constructed:
  "NodeReadable (Web 0)
     (world0\<lparr>streams := (streams world0)(0 := \<lparr>queue = cs, ending = Errored msg, locked = False\<rparr>)\<rparr>) =
   (Inr (failing_adapter cs msg), snd (reader_st (failing_adapter cs msg)))"
  by (simp add: NodeReadable_def Reader_def inherited_def obj_id_def failing_adapter_def world0_def)

text \<open>
  C9. The solicited-read entry point \<open>_read\<close> of the pull-to-push adapter never throws to
  its caller. When it starts the drain loop (the adapter is neither reading nor
  cancelling), every exception that leaves the loop, raised by a pull or by a push, is
  emitted downstream as an error event, after the events the loop had caused. In
  particular, over a source that fails after its pending chunks and a downstream side
  that accepts everything, the events are the pushes of those chunks followed by the
  error event of the source's error; and when the push of the first chunk throws, the
  error event of that exception is the only event.
\<close>

theorem node_read_delivers_errors:
  "fst (NodeReadable_read k nr) = Inr () \<and>
   (\<not> reading nr \<and> \<not> cancelling nr \<longrightarrow>
      (\<forall>e. fst (drain k (nr\<lparr>reading := True\<rparr>)) = Inl e \<longrightarrow>
         events (snd (NodeReadable_read k nr)) =
           events (snd (drain k (nr\<lparr>reading := True\<rparr>))) @ [ErrorEvent e]) \<and>
      (\<forall>sa msg. source_fails sa msg (reader_st nr) \<and> (\<forall>evs v. k evs v = Inr True) \<longrightarrow>
         events (snd (NodeReadable_read k nr)) =
           events nr @ map Pushed (pending (reader_st nr)) @ [ErrorEvent (SourceError msg)]) \<and>
      (\<forall>c e. fst (read (reader_st nr)) = Inr (Result False c) \<and> k (events nr) (Some c) = Inl e \<longrightarrow>
         events (snd (NodeReadable_read k nr)) = events nr @ [ErrorEvent e]))"
proof -
  have a: "fst (NodeReadable_read k nr) = Inr ()"
    by (simp add: NodeReadable_read_def)
  have b: "events (snd (NodeReadable_read k nr)) =
      events (snd (drain k (nr\<lparr>reading := True\<rparr>))) @ [ErrorEvent e]"
    if "\<not> reading nr" "\<not> cancelling nr" "fst (drain k (nr\<lparr>reading := True\<rparr>)) = Inl e" for e
    using that
    by (cases "drain k (nr\<lparr>reading := True\<rparr>)") (simp add: NodeReadable_read_def doRead_def emit_error_def)
  have c: "events (snd (NodeReadable_read k nr)) =
      events nr @ map Pushed (pending (reader_st nr)) @ [ErrorEvent (SourceError msg)]"
    if n: "\<not> reading nr" "\<not> cancelling nr" and f: "source_fails sa msg (reader_st nr)"
      and acc: "\<forall>evs v. k evs v = Inr True" for sa msg
  proof -
    from drain_source_fails [of sa msg "nr\<lparr>reading := True\<rparr>" k] f acc n
    have "fst (drain k (nr\<lparr>reading := True\<rparr>)) = Inl (SourceError msg)"
      and "events (snd (drain k (nr\<lparr>reading := True\<rparr>))) = events nr @ map Pushed (pending (reader_st nr))"
      by simp_all
    with b [OF n] show ?thesis
      by simp
  qed
  have d: "events (snd (NodeReadable_read k nr)) = events nr @ [ErrorEvent e]"
    if n: "\<not> reading nr" "\<not> cancelling nr" and r: "fst (read (reader_st nr)) = Inr (Result False c)"
      and t: "k (events nr) (Some c) = Inl e" for c e
  proof -
    obtain s1 where rd: "read (reader_st nr) = (Inr (Result False c), s1)"
      using r by (cases "read (reader_st nr)") simp
    have "drain k (nr\<lparr>reading := True\<rparr>) = (Inl e, nr\<lparr>reading := True, reader_st := s1\<rparr>)"
      by (subst drain.simps) (simp add: rd push_def t)
    with b [OF n, of e] show ?thesis
      by simp
  qed
  from a b c d show ?thesis
    by blast
qed

theorem node_read_delivers_errors_witness:
  "fst (NodeReadable_read accept_all (failing_adapter [Str ''a'', Str ''b''] ''boom'')) = Inr () \<and>
   events (snd (NodeReadable_read accept_all (failing_adapter [Str ''a'', Str ''b''] ''boom''))) =
     [Pushed (Str ''a''), Pushed (Str ''b''), ErrorEvent (SourceError ''boom'')] \<and>
   events (snd (NodeReadable_read (throwing TypeError) (failing_adapter [Str ''a'', Str ''b''] ''boom''))) =
     [ErrorEvent TypeError]"
proof -
  let ?nr = "failing_adapter [Str ''a'', Str ''b''] ''boom''"
  have n: "\<not> reading ?nr" "\<not> cancelling ?nr" and ev: "events ?nr = []"
    by (simp_all add: failing_adapter_def)
  have f: "source_fails 0 ''boom'' (reader_st ?nr)"
    by (simp add: failing_adapter_def source_fails_def world0_def)
  have p: "pending (reader_st ?nr) = [Str ''a'', Str ''b'']"
    by (simp add: failing_adapter_def pending_def buffer_of_def source_rest_def world0_def)
  have acc: "\<forall>evs v. accept_all evs v = Inr True"
    by (simp add: accept_all_def)
  have r: "fst (read (reader_st ?nr)) = Inr (Result False (Str ''a''))"
    by (simp add: failing_adapter_def read_def source_read_def world0_def)
  have t: "throwing TypeError (events ?nr) (Some (Str ''a'')) = Inl TypeError"
    by (simp add: throwing_def)
  from node_read_delivers_errors [of accept_all ?nr] n f acc
  have "events (snd (NodeReadable_read accept_all ?nr)) =
      events ?nr @ map Pushed (pending (reader_st ?nr)) @ [ErrorEvent (SourceError ''boom'')]"
    by blast
  moreover from node_read_delivers_errors [of "throwing TypeError" ?nr] n r t
  have "events (snd (NodeReadable_read (throwing TypeError) ?nr)) = events ?nr @ [ErrorEvent TypeError]"
    by blast
  moreover from node_read_delivers_errors [of accept_all ?nr]
  have "fst (NodeReadable_read accept_all ?nr) = Inr ()"
    by blast
  ultimately show ?thesis
    by (simp add: ev p)
qed

end
